theory Spec2Isabelle
  imports Main "HOL-Library.Word" "HOL-Library.Finite_Map" "HOL-Library.Monad_Syntax"
begin

unbundle bit_operations_syntax

section \<open>Data model\<close>

text \<open>
  \<^verbatim>\<open>cipher.SHA256\<close> is a 32-byte array and \<^verbatim>\<open>Xor\<close> is its bytewise exclusive or: a
  256-bit word with \<open>XOR\<close>. The zero value \<^verbatim>\<open>cipher.SHA256{}\<close> is the word \<open>0\<close>.
\<close>

type_synonym SHA256 = "256 word"
type_synonym bytes = "8 word list"
type_synonym Address = "8 word \<times> 160 word"

text \<open>
  Modelled from the spec: the declaration of \<^verbatim>\<open>coin.UxOut\<close> is not part of
  \<^verbatim>\<open>unspent.go\<close>. The fields are those of the spec's output record (owner address,
  coins, hours, creation time and block); \<^verbatim>\<open>ux.Body.Address\<close> of the source is
  \<open>owner_address\<close>. The id and the snapshot hash are computed, not stored.
\<close>

record UxOut =
  owner_address :: Address
  coins :: "64 word"
  hours :: "64 word"
  creation_time :: "64 word"
  creation_block :: "64 word"

text \<open>
  The block types of the \<^verbatim>\<open>coin\<close> package, as far as \<^verbatim>\<open>processBlock\<close> reads them:
  \<^verbatim>\<open>b.Head\<close>, \<^verbatim>\<open>b.Body.Transactions\<close> and \<^verbatim>\<open>txn.In\<close>.
\<close>

record BlockHeader =
  Time :: "64 word"
  BkSeq :: "64 word"

record Transaction =
  In :: "SHA256 list"
  Out :: "(Address \<times> 64 word \<times> 64 word) list"

record BlockBody =
  Transactions :: "Transaction list"

record Block =
  Head :: BlockHeader
  Body :: BlockBody

text \<open>
  The functions of the \<^verbatim>\<open>coin\<close> and \<^verbatim>\<open>encoder\<close> packages that \<^verbatim>\<open>unspent.go\<close> calls
  are parameters of the model: \<^verbatim>\<open>ux.Hash()\<close>, \<^verbatim>\<open>ux.SnapshotHash()\<close>,
  \<^verbatim>\<open>coin.CreateUnspents(head, txn)\<close>, \<^verbatim>\<open>encoder.Serialize\<close> and
  \<^verbatim>\<open>encoder.DeserializeRaw\<close> (\<open>None\<close> when decoding fails).
\<close>

record coin =
  Hash :: "UxOut \<Rightarrow> SHA256"
  SnapshotHash :: "UxOut \<Rightarrow> SHA256"
  CreateUnspents :: "BlockHeader \<Rightarrow> Transaction \<Rightarrow> UxOut list"
  Serialize :: "UxOut \<Rightarrow> bytes"
  DeserializeRaw :: "bytes \<Rightarrow> UxOut option"

datatype error =
    ErrNotExist SHA256      \<comment> \<open>getArray: "unspent output of %s does not exist"\<close>
  | ErrInsertTwice SHA256   \<comment> \<open>addWithTx: "attemps to insert uxout:%v twice into the unspent pool"\<close>
  | ErrDeserialize          \<comment> \<open>an error of encoder.DeserializeRaw\<close>
  | ErrLoadFailed           \<comment> \<open>syncCache: "load unspent outputs from db failed: %v"\<close>
  | ErrTxNotWritable        \<comment> \<open>bolt: Put or Delete through a read-only handle\<close>

text \<open>
  The bolt store, as seen through a \<^verbatim>\<open>*bolt.DB\<close> or an open \<^verbatim>\<open>*bolt.Tx\<close>: the two
  buckets \<^verbatim>\<open>unspent_pool\<close> (output hash to serialized output; the key \<^verbatim>\<open>hash[:]\<close> is
  identified with the hash) and \<^verbatim>\<open>unspent_meta\<close> (the 32 bytes stored under a key are
  identified with the hash they encode), and whether the handle accepts writes.
  \<^verbatim>\<open>Bucket.Put\<close> and \<^verbatim>\<open>Bucket.Delete\<close> return \<^verbatim>\<open>ErrTxNotWritable\<close> and write
  nothing when it does not. A bucket that does not exist yet is the empty bucket
  (\<^verbatim>\<open>bucket.New\<close> creates it when it is missing).
\<close>

record bolt_store =
  writable :: bool
  unspent_pool :: "(SHA256, bytes) fmap"
  unspent_meta :: "(string, SHA256) fmap"

text \<open>
  \<^verbatim>\<open>UnspentPool\<close>: the cache (\<^verbatim>\<open>up.cache.pool\<close>, \<^verbatim>\<open>up.cache.uxhash\<close>) and the embedded
  \<^verbatim>\<open>sync.Mutex\<close>. The cache is keyed by \<^verbatim>\<open>hash.Hex()\<close>, an injective encoding of the
  hash, so the key is the hash. The handles \<^verbatim>\<open>db\<close>, \<^verbatim>\<open>pool\<close> and \<^verbatim>\<open>meta\<close> point into
  the store, which the model passes explicitly.
\<close>

record UnspentPool =
  cache_pool :: "(SHA256, UxOut) fmap"
  cache_uxhash :: SHA256
  locked :: bool

section \<open>The mutex\<close>

text \<open>
  A function that takes the mutex returns \<open>None\<close> when it never returns: \<^verbatim>\<open>Lock\<close> on
  a locked mutex blocks (no other thread is modelled that would release it), and
  \<^verbatim>\<open>Unlock\<close> of an unlocked mutex is a fatal runtime error.
\<close>

definition Lock :: "UnspentPool \<Rightarrow> UnspentPool option" where
  "Lock up = (if locked up then None else Some (up\<lparr>locked := True\<rparr>))"

definition Unlock :: "UnspentPool \<Rightarrow> UnspentPool option" where
  "Unlock up = (if locked up then Some (up\<lparr>locked := False\<rparr>) else None)"

section \<open>The buckets\<close>

definition xorhashKey :: string where
  "xorhashKey = ''xorhash''"

definition getXorHash :: "bolt_store \<Rightarrow> error + SHA256" where
  "getXorHash m =
     (case fmlookup (unspent_meta m) xorhashKey of
        Some v \<Rightarrow> Inr v
      | None \<Rightarrow> Inr 0)"

definition setXorHash :: "bolt_store \<Rightarrow> SHA256 \<Rightarrow> error option \<times> bolt_store" where
  "setXorHash m hash =
     (if writable m
      then (None, m\<lparr>unspent_meta := fmupd xorhashKey hash (unspent_meta m)\<rparr>)
      else (Some ErrTxNotWritable, m))"

text \<open>\<^verbatim>\<open>uxOuts.get\<close> returns \<^verbatim>\<open>(&out, true, nil)\<close>, \<^verbatim>\<open>(nil, false, nil)\<close> or an error.\<close>

definition uxOuts_get :: "coin \<Rightarrow> bolt_store \<Rightarrow> SHA256 \<Rightarrow> error + UxOut option" where
  "uxOuts_get c uo hash =
     (case fmlookup (unspent_pool uo) hash of
        Some v \<Rightarrow>
          (case DeserializeRaw c v of
             None \<Rightarrow> Inl ErrDeserialize
           | Some out \<Rightarrow> Inr (Some out))
      | None \<Rightarrow> Inr None)"

definition uxOuts_set :: "coin \<Rightarrow> bolt_store \<Rightarrow> SHA256 \<Rightarrow> UxOut \<Rightarrow> error option \<times> bolt_store" where
  "uxOuts_set c uo hash ux =
     (let v = Serialize c ux in
      if writable uo
      then (None, uo\<lparr>unspent_pool := fmupd hash v (unspent_pool uo)\<rparr>)
      else (Some ErrTxNotWritable, uo))"

definition uxOuts_delete :: "bolt_store \<Rightarrow> SHA256 \<Rightarrow> error option \<times> bolt_store" where
  "uxOuts_delete uo hash =
     (if writable uo
      then (None, uo\<lparr>unspent_pool := fmdrop hash (unspent_pool uo)\<rparr>)
      else (Some ErrTxNotWritable, uo))"

section \<open>Queries\<close>

fun getArray_loop ::
  "(SHA256, UxOut) fmap \<Rightarrow> SHA256 list \<Rightarrow> UxOut list \<Rightarrow> error + UxOut list" where
  "getArray_loop m [] uxs = Inr uxs"
| "getArray_loop m (h # hashes) uxs =
     (case fmlookup m h of
        None \<Rightarrow> Inl (ErrNotExist h)
      | Some ux \<Rightarrow> getArray_loop m hashes (uxs @ [ux]))"

definition getArray :: "UnspentPool \<Rightarrow> SHA256 list \<Rightarrow> error + UxOut list" where
  "getArray up hashes = getArray_loop (cache_pool up) hashes []"

definition GetArray :: "UnspentPool \<Rightarrow> SHA256 list \<Rightarrow> ((error + UxOut list) \<times> UnspentPool) option" where
  "GetArray up hashes = do {
     up1 \<leftarrow> Lock up;
     let r = getArray up1 hashes;
     up2 \<leftarrow> Unlock up1;
     Some (r, up2)
   }"

text \<open>\<^verbatim>\<open>Get\<close> returns \<^verbatim>\<open>(ux, ok)\<close>: \<open>Some ux\<close> when \<^verbatim>\<open>ok\<close>, \<open>None\<close> otherwise.\<close>

definition Get :: "UnspentPool \<Rightarrow> SHA256 \<Rightarrow> (UxOut option \<times> UnspentPool) option" where
  "Get up h = do {
     up1 \<leftarrow> Lock up;
     let r = fmlookup (cache_pool up1) h;
     up2 \<leftarrow> Unlock up1;
     Some (r, up2)
   }"

text \<open>
  Go iterates a map in no particular order; the model iterates in the order of the keys,
  which is one of the orders the program can take.
\<close>

definition GetAll :: "UnspentPool \<Rightarrow> ((UxOut list \<times> error option) \<times> UnspentPool) option" where
  "GetAll up = do {
     up1 \<leftarrow> Lock up;
     let arr = map snd (sorted_list_of_fmap (cache_pool up1));
     up2 \<leftarrow> Unlock up1;
     Some ((arr, None), up2)
   }"

definition Len :: "UnspentPool \<Rightarrow> (64 word \<times> UnspentPool) option" where
  "Len up = do {
     up1 \<leftarrow> Lock up;
     let n = of_nat (fcard (fmdom (cache_pool up1)));
     up2 \<leftarrow> Unlock up1;
     Some (n, up2)
   }"

fun Collides_loop :: "UnspentPool \<Rightarrow> SHA256 list \<Rightarrow> (bool \<times> UnspentPool) option" where
  "Collides_loop up [] = do {
     up2 \<leftarrow> Unlock up;
     Some (False, up2)
   }"
| "Collides_loop up (h # hashes) =
     (case fmlookup (cache_pool up) h of
        Some _ \<Rightarrow> Some (True, up)
      | None \<Rightarrow> Collides_loop up hashes)"

definition Collides :: "UnspentPool \<Rightarrow> SHA256 list \<Rightarrow> (bool \<times> UnspentPool) option" where
  "Collides up hashes = do {
     up1 \<leftarrow> Lock up;
     Collides_loop up1 hashes
   }"

definition Contains :: "UnspentPool \<Rightarrow> SHA256 \<Rightarrow> (bool \<times> UnspentPool) option" where
  "Contains up h = do {
     up1 \<leftarrow> Lock up;
     let ok = (fmlookup (cache_pool up1) h \<noteq> None);
     up2 \<leftarrow> Unlock up1;
     Some (ok, up2)
   }"

definition GetUnspentsOfAddr :: "UnspentPool \<Rightarrow> Address \<Rightarrow> (UxOut list \<times> UnspentPool) option" where
  "GetUnspentsOfAddr up addr = do {
     up1 \<leftarrow> Lock up;
     let uxs = filter (\<lambda>ux. owner_address ux = addr) (map snd (sorted_list_of_fmap (cache_pool up1)));
     up2 \<leftarrow> Unlock up1;
     Some (uxs, up2)
   }"

fun GetUnspentsOfAddrs_loop ::
  "Address list \<Rightarrow> UxOut list \<Rightarrow> (Address, UxOut list) fmap \<Rightarrow> (Address, UxOut list) fmap" where
  "GetUnspentsOfAddrs_loop addrm [] addrUxs = addrUxs"
| "GetUnspentsOfAddrs_loop addrm (ux # uxs) addrUxs =
     (if owner_address ux \<in> set addrm
      then GetUnspentsOfAddrs_loop addrm uxs
             (fmupd (owner_address ux)
                ((case fmlookup addrUxs (owner_address ux) of None \<Rightarrow> [] | Some l \<Rightarrow> l) @ [ux])
                addrUxs)
      else GetUnspentsOfAddrs_loop addrm uxs addrUxs)"

definition GetUnspentsOfAddrs ::
  "UnspentPool \<Rightarrow> Address list \<Rightarrow> ((Address, UxOut list) fmap \<times> UnspentPool) option" where
  "GetUnspentsOfAddrs up addrs = do {
     up1 \<leftarrow> Lock up;
     let addrUxs = GetUnspentsOfAddrs_loop addrs (map snd (sorted_list_of_fmap (cache_pool up1))) fmempty;
     up2 \<leftarrow> Unlock up1;
     Some (addrUxs, up2)
   }"

definition GetUxHash :: "UnspentPool \<Rightarrow> (SHA256 \<times> UnspentPool) option" where
  "GetUxHash up = do {
     up1 \<leftarrow> Lock up;
     let r = cache_uxhash up1;
     up2 \<leftarrow> Unlock up1;
     Some (r, up2)
   }"

definition getUxHashFromDB :: "bolt_store \<Rightarrow> error + SHA256" where
  "getUxHashFromDB db =
     (case fmlookup (unspent_meta db) xorhashKey of
        Some v \<Rightarrow> Inr v
      | None \<Rightarrow> Inr 0)"

section \<open>Construction\<close>

text \<open>
  \<^verbatim>\<open>up.pool.ForEach\<close> visits the bucket in key order and stops at the first error of
  its callback; the callback decodes the value and stores it in the cache.
\<close>

fun syncCache_loop :: "coin \<Rightarrow> (SHA256 \<times> bytes) list \<Rightarrow> UnspentPool \<Rightarrow> error + UnspentPool" where
  "syncCache_loop c [] up = Inr up"
| "syncCache_loop c ((k, v) # kvs) up =
     (case DeserializeRaw c v of
        None \<Rightarrow> Inl ErrLoadFailed
      | Some ux \<Rightarrow> syncCache_loop c kvs (up\<lparr>cache_pool := fmupd k ux (cache_pool up)\<rparr>))"

definition syncCache :: "coin \<Rightarrow> bolt_store \<Rightarrow> UnspentPool \<Rightarrow> error + UnspentPool" where
  "syncCache c db up =
     (case syncCache_loop c (sorted_list_of_fmap (unspent_pool db)) up of
        Inl err \<Rightarrow> Inl err
      | Inr up1 \<Rightarrow>
          (case getUxHashFromDB db of
             Inl err \<Rightarrow> Inl err
           | Inr uxhash \<Rightarrow> Inr (up1\<lparr>cache_uxhash := uxhash\<rparr>)))"

text \<open>
  Modelled from the spec: \<^verbatim>\<open>bucket.New\<close> lives in the \<^verbatim>\<open>visor/bucket\<close> package, outside
  \<^verbatim>\<open>unspent.go\<close>. It opens the named region, creating it when missing, and fails when the
  store cannot be opened for that: a handle that does not accept writes.
\<close>

definition bucket_New :: "bolt_store \<Rightarrow> error option" where
  "bucket_New db = (if writable db then None else Some ErrTxNotWritable)"

definition NewUnspentPool :: "coin \<Rightarrow> bolt_store \<Rightarrow> error + UnspentPool" where
  "NewUnspentPool c db =
     (let up = \<lparr>cache_pool = fmempty, cache_uxhash = 0, locked = False\<rparr> in
      case bucket_New db of
        Some err \<Rightarrow> Inl err
      | None \<Rightarrow>
          (case bucket_New db of
             Some err \<Rightarrow> Inl err
           | None \<Rightarrow>
               (case syncCache c db up of
                  Inl err \<Rightarrow> Inl err
                | Inr up1 \<Rightarrow> Inr up1)))"

section \<open>Block application\<close>

fun deleteWithTx_loop ::
  "coin \<Rightarrow> bolt_store \<Rightarrow> SHA256 list \<Rightarrow> SHA256 \<Rightarrow> (error + SHA256) \<times> bolt_store" where
  "deleteWithTx_loop c tx [] uxHash = (Inr uxHash, tx)"
| "deleteWithTx_loop c tx (hash # hashes) uxHash =
     (case uxOuts_get c tx hash of
        Inl err \<Rightarrow> (Inl err, tx)
      | Inr None \<Rightarrow> deleteWithTx_loop c tx hashes uxHash
      | Inr (Some ux) \<Rightarrow>
          (case getXorHash tx of
             Inl err \<Rightarrow> (Inl err, tx)
           | Inr h \<Rightarrow>
               (let uxHash' = h XOR SnapshotHash c ux in
                case setXorHash tx uxHash' of
                  (Some err, tx1) \<Rightarrow> (Inl err, tx1)
                | (None, tx1) \<Rightarrow>
                    (case uxOuts_delete tx1 hash of
                       (Some err, tx2) \<Rightarrow> (Inl err, tx2)
                     | (None, tx2) \<Rightarrow> deleteWithTx_loop c tx2 hashes uxHash'))))"

definition deleteWithTx :: "coin \<Rightarrow> bolt_store \<Rightarrow> SHA256 list \<Rightarrow> (error + SHA256) \<times> bolt_store" where
  "deleteWithTx c tx hashes = deleteWithTx_loop c tx hashes 0"

text \<open>
  \<^verbatim>\<open>addWithTx\<close> checks the id with \<^verbatim>\<open>up.Contains\<close>, which reads the cache under the mutex.
  Its deferred \<^verbatim>\<open>recover\<close> turns a panic into an error; none of the operations modelled
  here panics.
\<close>

definition addWithTx ::
  "coin \<Rightarrow> UnspentPool \<Rightarrow> bolt_store \<Rightarrow> UxOut \<Rightarrow> ((error + SHA256) \<times> bolt_store \<times> UnspentPool) option" where
  "addWithTx c up tx ux = do {
     let h = Hash c ux;
     (found, up1) \<leftarrow> Contains up h;
     if found then Some (Inl (ErrInsertTwice h), tx, up1)
     else
       (case getXorHash tx of
          Inl err \<Rightarrow> Some (Inl err, tx, up1)
        | Inr xorhash \<Rightarrow>
            (let xorhash' = xorhash XOR SnapshotHash c ux in
             case setXorHash tx xorhash' of
               (Some err, tx1) \<Rightarrow> Some (Inl err, tx1, up1)
             | (None, tx1) \<Rightarrow>
                 (case uxOuts_set c tx1 h ux of
                    (Some err, tx2) \<Rightarrow> Some (Inl err, tx2, up1)
                  | (None, tx2) \<Rightarrow> Some (Inr xorhash', tx2, up1))))
   }"

fun deleteUxFromCache :: "coin \<Rightarrow> UnspentPool \<Rightarrow> UxOut list \<Rightarrow> UnspentPool" where
  "deleteUxFromCache c up [] = up"
| "deleteUxFromCache c up (ux # uxs) =
     deleteUxFromCache c (up\<lparr>cache_pool := fmdrop (Hash c ux) (cache_pool up)\<rparr>) uxs"

fun addUxToCache :: "coin \<Rightarrow> UnspentPool \<Rightarrow> UxOut list \<Rightarrow> UnspentPool" where
  "addUxToCache c up [] = up"
| "addUxToCache c up (ux # uxs) =
     addUxToCache c (up\<lparr>cache_pool := fmupd (Hash c ux) ux (cache_pool up)\<rparr>) uxs"

definition updateUxHashInCache :: "UnspentPool \<Rightarrow> SHA256 \<Rightarrow> UnspentPool" where
  "updateUxHashInCache up hash = up\<lparr>cache_uxhash := hash\<rparr>"

text \<open>The inner loop of \<^verbatim>\<open>processBlock\<close>: \<^verbatim>\<open>for i := range txUxs\<close>.\<close>

fun processBlock_adds ::
  "coin \<Rightarrow> UnspentPool \<Rightarrow> bolt_store \<Rightarrow> UxOut list \<Rightarrow> SHA256 \<Rightarrow>
   ((error + SHA256) \<times> bolt_store \<times> UnspentPool) option" where
  "processBlock_adds c up tx [] uxHash = Some (Inr uxHash, tx, up)"
| "processBlock_adds c up tx (ux # txUxs) uxHash =
     (case addWithTx c up tx ux of
        None \<Rightarrow> None
      | Some (Inl err, tx1, up1) \<Rightarrow> Some (Inl err, tx1, up1)
      | Some (Inr h, tx1, up1) \<Rightarrow> processBlock_adds c up1 tx1 txUxs h)"

text \<open>
  The outer loop: \<^verbatim>\<open>for _, txn := range b.Body.Transactions\<close>, with the variables
  \<^verbatim>\<open>delUxs\<close>, \<^verbatim>\<open>addUxs\<close> and \<^verbatim>\<open>uxHash\<close> it updates. The value \<^verbatim>\<open>deleteWithTx\<close> returns
  is discarded (\<^verbatim>\<open>_\<close>).
\<close>

fun processBlock_txns ::
  "coin \<Rightarrow> BlockHeader \<Rightarrow> UnspentPool \<Rightarrow> bolt_store \<Rightarrow> Transaction list \<Rightarrow>
   UxOut list \<Rightarrow> UxOut list \<Rightarrow> SHA256 \<Rightarrow>
   ((error + UxOut list \<times> UxOut list \<times> SHA256) \<times> bolt_store \<times> UnspentPool) option" where
  "processBlock_txns c bh up tx [] delUxs addUxs uxHash = Some (Inr (delUxs, addUxs, uxHash), tx, up)"
| "processBlock_txns c bh up tx (txn # txns) delUxs addUxs uxHash =
     (case getArray up (In txn) of
        Inl err \<Rightarrow> Some (Inl err, tx, up)
      | Inr uxs \<Rightarrow>
          (case deleteWithTx c tx (In txn) of
             (Inl err, tx1) \<Rightarrow> Some (Inl err, tx1, up)
           | (Inr _, tx1) \<Rightarrow>
               (let txUxs = CreateUnspents c bh txn in
                case processBlock_adds c up tx1 txUxs uxHash of
                  None \<Rightarrow> None
                | Some (Inl err, tx2, up2) \<Rightarrow> Some (Inl err, tx2, up2)
                | Some (Inr uxHash', tx2, up2) \<Rightarrow>
                    processBlock_txns c bh up2 tx2 txns (delUxs @ uxs) (addUxs @ txUxs) uxHash')))"

type_synonym Rollback = "UnspentPool \<Rightarrow> UnspentPool option"

text \<open>
  \<^verbatim>\<open>processBlock\<close> returns the rollback closure and the error, and leaves the transaction
  and the pool changed. On an error the closure is \<^verbatim>\<open>func() {}\<close>.
\<close>

definition processBlock ::
  "coin \<Rightarrow> UnspentPool \<Rightarrow> Block \<Rightarrow> bolt_store \<Rightarrow>
   (Rollback \<times> error option \<times> bolt_store \<times> UnspentPool) option" where
  "processBlock c up b tx =
     (let oldUxHash = cache_uxhash up in
      case processBlock_txns c (Head b) up tx (Transactions (Body b)) [] [] 0 of
        None \<Rightarrow> None
      | Some (Inl err, tx1, up1) \<Rightarrow> Some (\<lambda>u. Some u, Some err, tx1, up1)
      | Some (Inr (delUxs, addUxs, uxHash), tx1, up1) \<Rightarrow> do {
          up2 \<leftarrow> Lock up1;
          let up3 = deleteUxFromCache c up2 delUxs;
          let up4 = addUxToCache c up3 addUxs;
          let up5 = updateUxHashInCache up4 uxHash;
          up6 \<leftarrow> Unlock up5;
          Some (\<lambda>u. do {
                  u1 \<leftarrow> Lock u;
                  let u2 = deleteUxFromCache c u1 addUxs;
                  let u3 = addUxToCache c u2 delUxs;
                  let u4 = updateUxHashInCache u3 oldUxHash;
                  Unlock u4
                }, None, tx1, up6)
        })"

section \<open>Notions used by the properties\<close>

text \<open>
  The checksum the spec asks for: the exclusive or of the snapshot hashes of a list of
  records (of the array \<^verbatim>\<open>GetAll\<close> returns).
\<close>

definition snapshot_xor :: "coin \<Rightarrow> UxOut list \<Rightarrow> SHA256" where
  "snapshot_xor c uxs = foldr (\<lambda>ux h. SnapshotHash c ux XOR h) uxs 0"

text \<open>The same over the records of a cache mapping, in the order \<^verbatim>\<open>GetAll\<close> lists them.\<close>

definition pool_checksum :: "coin \<Rightarrow> (SHA256, UxOut) fmap \<Rightarrow> SHA256" where
  "pool_checksum c m = snapshot_xor c (map snd (sorted_list_of_fmap m))"

text \<open>
  The cache is keyed by the ids of its records: what \<^verbatim>\<open>addUxToCache\<close> establishes for
  every record it stores (\<^verbatim>\<open>up.cache.pool[ux.Hash().Hex()] = ux\<close>).
\<close>

definition keyed_by_id :: "coin \<Rightarrow> UnspentPool \<Rightarrow> bool" where
  "keyed_by_id c up = fmpred (\<lambda>k ux. Hash c ux = k) (cache_pool up)"

text \<open>
  The store mirrors a cache mapping: the output bucket holds, under the same keys,
  values that decode to the records of the mapping, and the stored checksum is the
  checksum of the mapping.
\<close>

definition store_mirrors :: "coin \<Rightarrow> bolt_store \<Rightarrow> (SHA256, UxOut) fmap \<Rightarrow> bool" where
  "store_mirrors c tx m =
     (fmrel (\<lambda>v ux. DeserializeRaw c v = Some ux) (unspent_pool tx) m \<and>
      getXorHash tx = Inr (pool_checksum c m))"

text \<open>Every value of the output bucket decodes.\<close>

definition all_decode :: "coin \<Rightarrow> bolt_store \<Rightarrow> bool" where
  "all_decode c db = fmpred (\<lambda>k v. DeserializeRaw c v \<noteq> None) (unspent_pool db)"

text \<open>The input ids of a block and the outputs it creates, in block order.\<close>

definition block_inputs :: "Block \<Rightarrow> SHA256 list" where
  "block_inputs b = concat (map In (Transactions (Body b)))"

definition block_outputs :: "coin \<Rightarrow> Block \<Rightarrow> UxOut list" where
  "block_outputs c b = concat (map (CreateUnspents c (Head b)) (Transactions (Body b)))"

section \<open>A small instance\<close>

text \<open>
  An instance of the parameters small enough to evaluate: the id of an output is its
  coins, its snapshot hash is its hours, and the codec writes the two as two bytes.
\<close>

definition example_coin :: coin where
  "example_coin =
     \<lparr>Hash = (\<lambda>ux. ucast (coins ux)),
      SnapshotHash = (\<lambda>ux. ucast (hours ux)),
      CreateUnspents = (\<lambda>bh txn. map (\<lambda>(a, cn, hr).
         \<lparr>owner_address = a, coins = cn, hours = hr,
          creation_time = Time bh, creation_block = BkSeq bh\<rparr>) (Out txn)),
      Serialize = (\<lambda>ux. [ucast (coins ux), ucast (hours ux)]),
      DeserializeRaw = (\<lambda>bs. case bs of
         [a, b] \<Rightarrow> Some \<lparr>owner_address = (0, 0), coins = ucast a, hours = ucast b,
                          creation_time = 0, creation_block = 0\<rparr>
       | _ \<Rightarrow> None)\<rparr>"

definition uxA :: UxOut where
  "uxA = \<lparr>owner_address = (0, 0), coins = 1, hours = 5, creation_time = 0, creation_block = 0\<rparr>"

definition uxB :: UxOut where
  "uxB = \<lparr>owner_address = (0, 0), coins = 2, hours = 6, creation_time = 0, creation_block = 0\<rparr>"

definition uxC :: UxOut where
  "uxC = \<lparr>owner_address = (0, 0), coins = 4, hours = 9, creation_time = 0, creation_block = 0\<rparr>"

text \<open>A pool holding A and B, and the store it mirrors; the checksum is \<open>5 XOR 6 = 3\<close>.\<close>

definition pool_AB :: UnspentPool where
  "pool_AB = \<lparr>cache_pool = fmupd 2 uxB (fmupd 1 uxA fmempty), cache_uxhash = 3, locked = False\<rparr>"

definition store_AB :: bolt_store where
  "store_AB = \<lparr>writable = True,
               unspent_pool = fmupd 2 [2, 6] (fmupd 1 [1, 5] fmempty),
               unspent_meta = fmupd xorhashKey 3 fmempty\<rparr>"

definition pool_empty :: UnspentPool where
  "pool_empty = \<lparr>cache_pool = fmempty, cache_uxhash = 0, locked = False\<rparr>"

definition store_empty :: bolt_store where
  "store_empty = \<lparr>writable = True, unspent_pool = fmempty, unspent_meta = fmempty\<rparr>"

definition block_of :: "Transaction list \<Rightarrow> Block" where
  "block_of txns = \<lparr>Head = \<lparr>Time = 0, BkSeq = 0\<rparr>, Body = \<lparr>Transactions = txns\<rparr>\<rparr>"

text \<open>One transaction that spends A and creates nothing.\<close>

definition block_spend_A :: Block where
  "block_spend_A = block_of [\<lparr>In = [1], Out = []\<rparr>]"

text \<open>One transaction that spends A and creates C.\<close>

definition block_A_to_C :: Block where
  "block_A_to_C = block_of [\<lparr>In = [1], Out = [((0, 0), 4, 9)]\<rparr>]"

text \<open>One transaction that names A twice among its inputs.\<close>

definition block_spend_A_twice :: Block where
  "block_spend_A_twice = block_of [\<lparr>In = [1, 1], Out = []\<rparr>]"

text \<open>One transaction whose input 7 is in no pool here.\<close>

definition block_spend_missing :: Block where
  "block_spend_missing = block_of [\<lparr>In = [7], Out = []\<rparr>]"

text \<open>One transaction without inputs that creates C twice.\<close>

definition block_C_twice :: Block where
  "block_C_twice = block_of [\<lparr>In = [], Out = [((0, 0), 4, 9), ((0, 0), 4, 9)]\<rparr>]"

section \<open>Lemmas\<close>

subsection \<open>The mutex and the duplicate check\<close>

lemma relock_id: "\<not> locked up \<Longrightarrow> up\<lparr>locked := False\<rparr> = up"
  by (cases up) simp

lemma Contains_eq:
  "Contains up h = (if locked up then None else Some (fmlookup (cache_pool up) h \<noteq> None, up))"
  by (simp add: Contains_def Lock_def Unlock_def relock_id)

lemma addWithTx_locked: "locked up \<Longrightarrow> addWithTx c up tx ux = None"
  by (simp add: addWithTx_def Contains_eq)

lemma addWithTx_duplicate:
  "\<not> locked up \<Longrightarrow> fmlookup (cache_pool up) (Hash c ux) \<noteq> None \<Longrightarrow>
   addWithTx c up tx ux = Some (Inl (ErrInsertTwice (Hash c ux)), tx, up)"
  by (simp add: addWithTx_def Contains_eq)

lemma addWithTx_fresh:
  "\<not> locked up \<Longrightarrow> fmlookup (cache_pool up) (Hash c ux) = None \<Longrightarrow>
   addWithTx c up tx ux =
     (if writable tx
      then Some (Inr ((case fmlookup (unspent_meta tx) xorhashKey of Some v \<Rightarrow> v | None \<Rightarrow> 0) XOR SnapshotHash c ux),
             tx\<lparr>unspent_meta := fmupd xorhashKey
                    ((case fmlookup (unspent_meta tx) xorhashKey of Some v \<Rightarrow> v | None \<Rightarrow> 0) XOR SnapshotHash c ux)
                    (unspent_meta tx),
                 unspent_pool := fmupd (Hash c ux) (Serialize c ux) (unspent_pool tx)\<rparr>, up)
      else Some (Inl ErrTxNotWritable, tx, up))"
  by (simp add: addWithTx_def Contains_eq getXorHash_def setXorHash_def uxOuts_set_def Let_def split: option.splits)

lemma addWithTx_Some:
  assumes "addWithTx c up tx ux = Some (r, tx', up')"
  shows "up' = up" and "\<not> locked up"
    and "\<And>h. r = Inr h \<Longrightarrow> fmlookup (cache_pool up) (Hash c ux) = None"
proof -
  show nl: "\<not> locked up" using assms addWithTx_locked by fastforce
  show "up' = up"
  proof (cases "fmlookup (cache_pool up) (Hash c ux) = None")
    case True then show ?thesis using assms nl by (simp add: addWithTx_fresh split: if_splits)
  next
    case False then show ?thesis using assms nl by (simp add: addWithTx_duplicate)
  qed
  show "\<And>h. r = Inr h \<Longrightarrow> fmlookup (cache_pool up) (Hash c ux) = None"
    using assms nl by (cases "fmlookup (cache_pool up) (Hash c ux) = None") (auto simp: addWithTx_duplicate)
qed

lemma addWithTx_total: "\<not> locked up \<Longrightarrow> \<exists>r tx'. addWithTx c up tx ux = Some (r, tx', up)"
  by (cases "fmlookup (cache_pool up) (Hash c ux) = None") (simp_all add: addWithTx_fresh addWithTx_duplicate)

lemma adds_Some:
  "processBlock_adds c up tx uxs u = Some (r, tx', up') \<Longrightarrow>
   up' = up \<and> (\<forall>h. r = Inr h \<longrightarrow> (\<forall>ux\<in>set uxs. fmlookup (cache_pool up) (Hash c ux) = None))"
proof (induction uxs arbitrary: tx u)
  case Nil
  then show ?case by simp
next
  case (Cons ux uxs)
  from Cons.prems obtain r1 tx1 up1 where a: "addWithTx c up tx ux = Some (r1, tx1, up1)"
    by (cases "addWithTx c up tx ux") auto
  from addWithTx_Some[OF a] have u1: "up1 = up" and fr: "\<And>h. r1 = Inr h \<Longrightarrow> fmlookup (cache_pool up) (Hash c ux) = None"
    by auto
  show ?case
  proof (cases r1)
    case (Inl e)
    with Cons.prems a u1 show ?thesis by auto
  next
    case (Inr h)
    with Cons.prems a u1 have "processBlock_adds c up tx1 uxs h = Some (r, tx', up')" by simp
    from Cons.IH[OF this] fr[OF Inr] show ?thesis by auto
  qed
qed

lemma adds_total: "\<not> locked up \<Longrightarrow> \<exists>r tx'. processBlock_adds c up tx uxs u = Some (r, tx', up)"
proof (induction uxs arbitrary: tx u)
  case Nil
  then show ?case by simp
next
  case (Cons ux uxs)
  from addWithTx_total[OF Cons.prems] obtain r1 tx1 where a: "addWithTx c up tx ux = Some (r1, tx1, up)"
    by blast
  show ?case
  proof (cases r1)
    case (Inl e)
    with a show ?thesis by simp
  next
    case (Inr h)
    with a Cons.IH[OF Cons.prems, of tx1 h] show ?thesis by simp
  qed
qed

lemma getArray_loop_eq:
  "getArray_loop m hashes uxs =
     (case find (\<lambda>h. fmlookup m h = None) hashes of
        Some h \<Rightarrow> Inl (ErrNotExist h)
      | None \<Rightarrow> Inr (uxs @ map (\<lambda>h. the (fmlookup m h)) hashes))"
  by (induction hashes arbitrary: uxs) (auto split: option.splits)

lemma getArray_Inr:
  "getArray up hashes = Inr uxs \<Longrightarrow>
   uxs = map (\<lambda>h. the (fmlookup (cache_pool up) h)) hashes \<and> (\<forall>h\<in>set hashes. fmlookup (cache_pool up) h \<noteq> None)"
  by (auto simp: getArray_def getArray_loop_eq find_None_iff split: option.splits)

subsection \<open>The loops of block application\<close>

lemma txns_Some:
  "processBlock_txns c bh up tx txns delUxs addUxs u = Some (r, tx', up') \<Longrightarrow>
   up' = up \<and>
   (\<forall>D A h. r = Inr (D, A, h) \<longrightarrow>
      D = delUxs @ map (\<lambda>h. the (fmlookup (cache_pool up) h)) (concat (map In txns)) \<and>
      A = addUxs @ concat (map (CreateUnspents c bh) txns) \<and>
      (\<forall>h\<in>set (concat (map In txns)). fmlookup (cache_pool up) h \<noteq> None) \<and>
      (\<forall>ux\<in>set (concat (map (CreateUnspents c bh) txns)). fmlookup (cache_pool up) (Hash c ux) = None))"
proof (induction txns arbitrary: tx delUxs addUxs u)
  case Nil
  then show ?case by auto
next
  case (Cons txn txns)
  show ?case
  proof (cases "getArray up (In txn)")
    case (Inl e)
    with Cons.prems show ?thesis by auto
  next
    case (Inr uxs)
    note ga = getArray_Inr[OF Inr]
    obtain rd tx1 where d: "deleteWithTx c tx (In txn) = (rd, tx1)" by (cases "deleteWithTx c tx (In txn)")
    show ?thesis
    proof (cases rd)
      case (Inl e)
      with Cons.prems Inr d show ?thesis by auto
    next
      case rdr: (Inr hd)
      from Cons.prems Inr d rdr obtain ra tx2 up2 where
        a: "processBlock_adds c up tx1 (CreateUnspents c bh txn) u = Some (ra, tx2, up2)"
        by (cases "processBlock_adds c up tx1 (CreateUnspents c bh txn) u") (auto simp: Let_def)
      from adds_Some[OF a] have u2: "up2 = up"
        and fr: "\<And>h. ra = Inr h \<Longrightarrow> \<forall>ux\<in>set (CreateUnspents c bh txn). fmlookup (cache_pool up) (Hash c ux) = None"
        by auto
      show ?thesis
      proof (cases ra)
        case (Inl e)
        with Cons.prems Inr d rdr a u2 show ?thesis by (auto simp: Let_def)
      next
        case rar: (Inr h1)
        with Cons.prems Inr d rdr a u2 have
          "processBlock_txns c bh up tx2 txns (delUxs @ uxs) (addUxs @ CreateUnspents c bh txn) h1 = Some (r, tx', up')"
          by (simp add: Let_def)
        from Cons.IH[OF this] ga fr[OF rar] show ?thesis by auto
      qed
    qed
  qed
qed

lemma txns_total:
  "\<not> locked up \<Longrightarrow> \<exists>r tx'. processBlock_txns c bh up tx txns delUxs addUxs u = Some (r, tx', up)"
proof (induction txns arbitrary: tx delUxs addUxs u)
  case Nil
  then show ?case by simp
next
  case (Cons txn txns)
  show ?case
  proof (cases "getArray up (In txn)")
    case (Inl e)
    then show ?thesis by simp
  next
    case (Inr uxs)
    obtain rd tx1 where d: "deleteWithTx c tx (In txn) = (rd, tx1)" by (cases "deleteWithTx c tx (In txn)")
    show ?thesis
    proof (cases rd)
      case (Inl e)
      with Inr d show ?thesis by simp
    next
      case rdr: (Inr hd)
      from adds_total[OF Cons.prems] obtain ra tx2 where
        a: "processBlock_adds c up tx1 (CreateUnspents c bh txn) u = Some (ra, tx2, up)" by blast
      show ?thesis
      proof (cases ra)
        case (Inl e)
        with Inr d rdr a show ?thesis by (simp add: Let_def)
      next
        case rar: (Inr h1)
        with Inr d rdr a Cons.IH[OF Cons.prems, of tx2 "delUxs @ uxs" "addUxs @ CreateUnspents c bh txn" h1]
        show ?thesis by (simp add: Let_def)
      qed
    qed
  qed
qed

lemma deleteUxFromCache_eq:
  "deleteUxFromCache c up uxs = up\<lparr>cache_pool := fmdrop_set (Hash c ` set uxs) (cache_pool up)\<rparr>"
  by (induction uxs arbitrary: up) (simp_all add: insert_commute)

lemma addUxToCache_eq:
  "addUxToCache c up uxs = up\<lparr>cache_pool := fold (\<lambda>ux. fmupd (Hash c ux) ux) uxs (cache_pool up)\<rparr>"
  by (induction uxs arbitrary: up) simp_all

lemma lookup_fold_upd_notin:
  "k \<notin> H ` set uxs \<Longrightarrow> fmlookup (fold (\<lambda>ux. fmupd (H ux) ux) uxs m) k = fmlookup m k"
  by (induction uxs arbitrary: m) auto

lemma lookup_fold_upd_in:
  "k \<in> H ` set uxs \<Longrightarrow> \<exists>ux\<in>set uxs. H ux = k \<and> fmlookup (fold (\<lambda>ux. fmupd (H ux) ux) uxs m) k = Some ux"
proof (induction uxs arbitrary: m)
  case Nil
  then show ?case by simp
next
  case (Cons x xs)
  show ?case
  proof (cases "k \<in> H ` set xs")
    case True
    from Cons.IH[OF True, of "fmupd (H x) x m"] show ?thesis by auto
  next
    case False
    with Cons.prems have "H x = k" by auto
    with False show ?thesis by (simp add: lookup_fold_upd_notin)
  qed
qed

lemma fmdom'_fold_upd:
  "fmdom' (fold (\<lambda>ux. fmupd (H ux) ux) uxs m) = fmdom' m \<union> H ` set uxs"
  by (induction uxs arbitrary: m) auto

lemma processBlock_error:
  assumes "processBlock c up b tx = Some (rb, Some e, tx', up')"
  shows "up' = up" and "rb = Some"
proof -
  from assms obtain r tx1 up1 where
    t: "processBlock_txns c (Head b) up tx (Transactions (Body b)) [] [] 0 = Some (r, tx1, up1)"
    by (cases "processBlock_txns c (Head b) up tx (Transactions (Body b)) [] [] 0")
       (auto simp: processBlock_def)
  from txns_Some[OF t] have u1: "up1 = up" by simp
  show "up' = up" "rb = Some"
    using assms t u1
    by (cases r; auto simp: processBlock_def Let_def Lock_def Unlock_def split: if_splits)+
qed

lemma processBlock_success:
  assumes "processBlock c up b tx = Some (rb, None, tx', up')"
  defines "ins \<equiv> concat (map In (Transactions (Body b)))"
  defines "D \<equiv> map (\<lambda>h. the (fmlookup (cache_pool up) h)) ins"
  defines "A \<equiv> concat (map (CreateUnspents c (Head b)) (Transactions (Body b)))"
  shows "\<not> locked up"
    and "\<forall>h\<in>set ins. fmlookup (cache_pool up) h \<noteq> None"
    and "\<forall>ux\<in>set A. fmlookup (cache_pool up) (Hash c ux) = None"
    and "\<exists>h. up' = up\<lparr>cache_pool := fold (\<lambda>ux. fmupd (Hash c ux) ux) A (fmdrop_set (Hash c ` set D) (cache_pool up)),
                     cache_uxhash := h\<rparr>"
    and "rb = (\<lambda>u. do {
                  u1 \<leftarrow> Lock u;
                  let u2 = deleteUxFromCache c u1 A;
                  let u3 = addUxToCache c u2 D;
                  let u4 = updateUxHashInCache u3 (cache_uxhash up);
                  Unlock u4
                })"
proof -
  from assms(1) obtain r tx1 up1 where
    t: "processBlock_txns c (Head b) up tx (Transactions (Body b)) [] [] 0 = Some (r, tx1, up1)"
    by (cases "processBlock_txns c (Head b) up tx (Transactions (Body b)) [] [] 0")
       (auto simp: processBlock_def)
  from txns_Some[OF t] have u1: "up1 = up" by simp
  from assms(1) t obtain D' A' h where r: "r = Inr (D', A', h)"
    by (cases r) (auto simp: processBlock_def)
  from txns_Some[OF t] r have DA: "D' = D" "A' = A"
    and ex: "\<forall>h\<in>set ins. fmlookup (cache_pool up) h \<noteq> None"
    and fr: "\<forall>ux\<in>set A. fmlookup (cache_pool up) (Hash c ux) = None"
    by (auto simp: D_def A_def ins_def)
  from assms(1) t r u1 DA have nl: "\<not> locked up"
    by (auto simp: processBlock_def Lock_def split: if_splits)
  show "\<not> locked up" by (rule nl)
  show "\<forall>h\<in>set ins. fmlookup (cache_pool up) h \<noteq> None" by (rule ex)
  show "\<forall>ux\<in>set A. fmlookup (cache_pool up) (Hash c ux) = None" by (rule fr)
  from assms(1) t r u1 DA nl
  have "up' = up\<lparr>cache_pool := fold (\<lambda>ux. fmupd (Hash c ux) ux) A (fmdrop_set (Hash c ` set D) (cache_pool up)),
                     cache_uxhash := h\<rparr>"
    by (cases up) (auto simp: processBlock_def Lock_def Unlock_def deleteUxFromCache_eq addUxToCache_eq
          updateUxHashInCache_def)
  then show "\<exists>h. up' = up\<lparr>cache_pool := fold (\<lambda>ux. fmupd (Hash c ux) ux) A (fmdrop_set (Hash c ` set D) (cache_pool up)),
                     cache_uxhash := h\<rparr>" by blast
  from assms(1) t r u1 DA nl
  show "rb = (\<lambda>u. do {
                  u1 \<leftarrow> Lock u;
                  let u2 = deleteUxFromCache c u1 A;
                  let u3 = addUxToCache c u2 D;
                  let u4 = updateUxHashInCache u3 (cache_uxhash up);
                  Unlock u4
                })"
    by (auto simp: processBlock_def Lock_def Unlock_def Let_def deleteUxFromCache_eq addUxToCache_eq
          updateUxHashInCache_def split: if_splits)
qed

lemma processBlock_total:
  assumes "\<not> locked up"
  shows "\<exists>rb err tx'. (\<exists>up'. processBlock c up b tx = Some (rb, err, tx', up'))"
proof -
  from txns_total[OF assms] obtain r tx1 where
    t: "processBlock_txns c (Head b) up tx (Transactions (Body b)) [] [] 0 = Some (r, tx1, up)" by blast
  show ?thesis
  proof (cases r)
    case (Inl e)
    with t show ?thesis by (simp add: processBlock_def)
  next
    case (Inr x)
    then obtain D A h where "r = Inr (D, A, h)" by (cases x) auto
    with t assms show ?thesis
      by (simp add: processBlock_def Lock_def Unlock_def deleteUxFromCache_eq addUxToCache_eq
          updateUxHashInCache_def)
  qed
qed

lemma undo_map:
  assumes wf: "\<forall>k ux. fmlookup m k = Some ux \<longrightarrow> H ux = k"
    and ex: "\<forall>h\<in>set ins. fmlookup m h \<noteq> None"
    and fr: "\<forall>ux\<in>set A. fmlookup m (H ux) = None"
  defines "D \<equiv> map (\<lambda>h. the (fmlookup m h)) ins"
  shows "fold (\<lambda>ux. fmupd (H ux) ux) D
           (fmdrop_set (H ` set A) (fold (\<lambda>ux. fmupd (H ux) ux) A (fmdrop_set (H ` set D) m))) = m"
proof (rule fmap_ext)
  fix k
  have Dm: "\<forall>d\<in>set D. fmlookup m (H d) = Some d"
    using wf ex by (auto simp: D_def)
  show "fmlookup (fold (\<lambda>ux. fmupd (H ux) ux) D
           (fmdrop_set (H ` set A) (fold (\<lambda>ux. fmupd (H ux) ux) A (fmdrop_set (H ` set D) m)))) k = fmlookup m k"
  proof (cases "k \<in> H ` set D")
    case True
    from lookup_fold_upd_in[OF True] Dm show ?thesis by fastforce
  next
    case False
    show ?thesis
    proof (cases "k \<in> H ` set A")
      case True
      with fr have "fmlookup m k = None" by auto
      with False True show ?thesis by (simp add: lookup_fold_upd_notin)
    next
      case kA: False
      with False show ?thesis by (simp add: lookup_fold_upd_notin)
    qed
  qed
qed

lemma txns_no_outputs_uxHash:
  "processBlock_txns c bh up tx txns delUxs addUxs u = Some (Inr (D, A, h), tx', up') \<Longrightarrow>
   concat (map (CreateUnspents c bh) txns) = [] \<Longrightarrow> h = u"
proof (induction txns arbitrary: tx delUxs addUxs)
  case Nil
  then show ?case by simp
next
  case (Cons txn txns)
  from Cons.prems(2) have e: "CreateUnspents c bh txn = []" and r: "concat (map (CreateUnspents c bh) txns) = []"
    by auto
  from Cons.prems(1) e obtain tx1 uxs where
    "processBlock_txns c bh up tx1 txns (delUxs @ uxs) addUxs u = Some (Inr (D, A, h), tx', up')"
    by (auto simp: Let_def split: sum.splits prod.splits)
  from Cons.IH[OF this r] show ?case .
qed

lemma processBlock_no_outputs:
  assumes "processBlock c up b tx = Some (rb, None, tx', up')"
    and "block_outputs c b = []"
  shows "cache_uxhash up' = 0"
proof -
  from assms(1) obtain D A h tx1 up1 where
    t: "processBlock_txns c (Head b) up tx (Transactions (Body b)) [] [] 0 = Some (Inr (D, A, h), tx1, up1)"
    and u: "Lock up1 \<bind> (\<lambda>up2. Unlock (updateUxHashInCache (addUxToCache c (deleteUxFromCache c up2 D) A) h)) = Some up'"
    by (auto simp: processBlock_def Let_def split: option.splits sum.splits prod.splits Option.bind_splits)
  from txns_no_outputs_uxHash[OF t] assms(2) have "h = 0" by (simp add: block_outputs_def)
  with u show ?thesis
    by (auto simp: Lock_def Unlock_def updateUxHashInCache_def split: if_splits)
qed

subsection \<open>Sizes and ids\<close>

lemma keyed_by_idD: "keyed_by_id c up \<Longrightarrow> fmlookup (cache_pool up) k = Some ux \<Longrightarrow> Hash c ux = k"
  by (auto simp: keyed_by_id_def)

lemma Len_eq:
  "Len up = (if locked up then None else Some (of_nat (fcard (fmdom (cache_pool up))), up))"
  by (simp add: Len_def Lock_def Unlock_def relock_id)

lemma card_after:
  assumes "finite M" "I \<subseteq> M" "N \<inter> M = {}" "finite N"
  shows "card ((M - I) \<union> N) + card I = card M + card N"
proof -
  have fI: "finite I" using assms(1,2) by (rule rev_finite_subset)
  have "card ((M - I) \<union> N) = card (M - I) + card N"
    using assms by (intro card_Un_disjoint) auto
  moreover have "card (M - I) + card I = card M"
    using assms(1,2) fI by (metis card_Diff_subset card_mono le_add_diff_inverse2)
  ultimately show ?thesis by simp
qed

lemma image_Hash_dels:
  assumes wf: "keyed_by_id c up"
    and ex: "\<forall>h\<in>set ins. fmlookup (cache_pool up) h \<noteq> None"
  shows "Hash c ` set (map (\<lambda>h. the (fmlookup (cache_pool up) h)) ins) = set ins"
proof -
  have "Hash c (the (fmlookup (cache_pool up) h)) = h" if "h \<in> set ins" for h
  proof -
    from ex that obtain ux where "fmlookup (cache_pool up) h = Some ux" by auto
    with keyed_by_idD[OF wf this] show ?thesis by simp
  qed
  then have "Hash c ` set (map (\<lambda>h. the (fmlookup (cache_pool up) h)) ins) = (\<lambda>h. h) ` set ins"
    by (simp add: image_image)
  then show ?thesis by simp
qed

subsection \<open>Loading the cache, deleting from the store\<close>

lemma syncCache_loop_Inr:
  "distinct (map fst kvs) \<Longrightarrow> syncCache_loop c kvs up = Inr up' \<Longrightarrow>
   cache_uxhash up' = cache_uxhash up \<and> locked up' = locked up \<and>
   (\<forall>k. fmlookup (cache_pool up') k =
      (case map_of kvs k of None \<Rightarrow> fmlookup (cache_pool up) k | Some v \<Rightarrow> DeserializeRaw c v)) \<and>
   (\<forall>v\<in>snd ` set kvs. DeserializeRaw c v \<noteq> None)"
proof (induction kvs arbitrary: up)
  case Nil
  then show ?case by simp
next
  case (Cons kv kvs)
  obtain k0 v0 where kv: "kv = (k0, v0)" by (cases kv)
  from Cons.prems kv obtain ux where d: "DeserializeRaw c v0 = Some ux"
    and l: "syncCache_loop c kvs (up\<lparr>cache_pool := fmupd k0 ux (cache_pool up)\<rparr>) = Inr up'"
    by (auto split: option.splits)
  from Cons.prems kv have dk: "distinct (map fst kvs)" and nk: "map_of kvs k0 = None"
    by (auto simp: map_of_eq_None_iff)
  from Cons.IH[OF dk l] d nk kv show ?case
    by (auto split: option.splits)
qed

lemma syncCache_loop_total:
  "\<forall>v\<in>snd ` set kvs. DeserializeRaw c v \<noteq> None \<Longrightarrow> \<exists>up'. syncCache_loop c kvs up = Inr up'"
  by (induction kvs arbitrary: up) (auto split: option.splits)

lemma distinct_keys_sorted_list: "distinct (map fst (sorted_list_of_fmap m))"
  by (simp add: sorted_list_of_fmap_def comp_def sorted_list_of_fset.rep_eq)

lemma snd_set_sorted_list: "v \<in> snd ` set (sorted_list_of_fmap m) \<longleftrightarrow> (\<exists>k. fmlookup m k = Some v)"
proof
  assume "v \<in> snd ` set (sorted_list_of_fmap m)"
  then obtain k where "(k, v) \<in> set (sorted_list_of_fmap m)" by auto
  then have "map_of (sorted_list_of_fmap m) k = Some v"
    using distinct_keys_sorted_list[of m] by (simp only: map_of_eq_Some_iff)
  then show "\<exists>k. fmlookup m k = Some v" by auto
next
  assume "\<exists>k. fmlookup m k = Some v"
  then obtain k where "map_of (sorted_list_of_fmap m) k = Some v" by auto
  then have "(k, v) \<in> set (sorted_list_of_fmap m)" by (rule map_of_SomeD)
  then show "v \<in> snd ` set (sorted_list_of_fmap m)" by force
qed

lemma deleteWithTx_loop_absent:
  "fmlookup (unspent_pool tx) hash = None \<Longrightarrow>
   deleteWithTx_loop c tx (hash # hashes) uxHash = deleteWithTx_loop c tx hashes uxHash"
  by (simp add: uxOuts_get_def)

lemma deleteWithTx_loop_filter:
  "fmdom' (unspent_pool tx) \<subseteq> S \<Longrightarrow>
   deleteWithTx_loop c tx hashes u = deleteWithTx_loop c tx (filter (\<lambda>h. h \<in> S) hashes) u"
proof (induction hashes arbitrary: tx u)
  case Nil
  then show ?case by simp
next
  case (Cons h hs)
  show ?case
  proof (cases "h \<in> S")
    case False
    with Cons.prems have "fmlookup (unspent_pool tx) h = None" by (auto simp: fmlookup_dom'_iff)
    with False Cons show ?thesis by (simp add: uxOuts_get_def)
  next
    case True
    have st: "\<And>tx2 u2. fmdom' (unspent_pool tx2) \<subseteq> fmdom' (unspent_pool tx) \<Longrightarrow>
        deleteWithTx_loop c tx2 hs u2 = deleteWithTx_loop c tx2 (filter (\<lambda>h. h \<in> S) hs) u2"
      using Cons.IH Cons.prems by blast
    from True show ?thesis
      by (auto simp: uxOuts_get_def getXorHash_def setXorHash_def uxOuts_delete_def Let_def
            intro!: st Cons.IH[OF Cons.prems] split: option.splits sum.splits)
  qed
qed

subsection \<open>The cache stays keyed by the ids of its records\<close>

text \<open>
  \<^verbatim>\<open>NewUnspentPool\<close> builds such a cache from a store whose keys are the ids of the records
  they hold, and block application keeps it so.
\<close>

lemma keyed_fold_upd:
  "fmpred (\<lambda>k ux. H ux = k) m \<Longrightarrow> fmpred (\<lambda>k ux. H ux = k) (fold (\<lambda>ux. fmupd (H ux) ux) xs m)"
  by (induction xs arbitrary: m) auto

lemma processBlock_keeps_keyed_by_id:
  assumes "keyed_by_id c up"
    and "processBlock c up b tx = Some (rb, err, tx', up')"
  shows "keyed_by_id c up'"
proof (cases err)
  case (Some e)
  with assms processBlock_error[of c up b tx rb e tx' up'] show ?thesis by simp
next
  case None
  from processBlock_success(4)[OF assms(2)[unfolded None]] assms(1) show ?thesis
    by (auto simp: keyed_by_id_def intro!: keyed_fold_upd)
qed

lemma NewUnspentPool_keyed_by_id:
  assumes n: "NewUnspentPool c db = Inr up"
    and k: "fmpred (\<lambda>k v. \<forall>ux. DeserializeRaw c v = Some ux \<longrightarrow> Hash c ux = k) (unspent_pool db)"
  shows "keyed_by_id c up"
proof -
  let ?up0 = "\<lparr>cache_pool = fmempty, cache_uxhash = 0, locked = False\<rparr>"
  from n obtain up1 where
    l: "syncCache_loop c (sorted_list_of_fmap (unspent_pool db)) ?up0 = Inr up1"
    and u: "cache_pool up = cache_pool up1"
    by (auto simp: NewUnspentPool_def bucket_New_def syncCache_def getUxHashFromDB_def
        split: option.splits sum.splits if_splits)
  note r = syncCache_loop_Inr[OF distinct_keys_sorted_list l]
  show ?thesis
    unfolding keyed_by_id_def
  proof (rule fmpredI)
    fix h ux assume "fmlookup (cache_pool up) h = Some ux"
    with r u obtain v where "fmlookup (unspent_pool db) h = Some v" "DeserializeRaw c v = Some ux"
      by (auto split: option.splits)
    with k show "Hash c ux = h" by (auto dest: fmpredD)
  qed
qed

subsection \<open>The checksum when the last transaction creates an output\<close>

text \<open>
  The exclusive or over the key-ordered records of a mapping follows insertions and
  removals of single keys.
\<close>

lemma xor_foldr_insort:
  "foldr (\<lambda>k h. (g k :: SHA256) XOR h) (insort k xs) 0 = g k XOR foldr (\<lambda>k h. g k XOR h) xs 0"
  by (induction xs) (simp_all add: ac_simps)

lemma xor_foldr_remove1:
  "k \<in> set xs \<Longrightarrow>
   foldr (\<lambda>k h. (g k :: SHA256) XOR h) (remove1 k xs) 0 = g k XOR foldr (\<lambda>k h. g k XOR h) xs 0"
proof (induction xs)
  case Nil
  then show ?case by simp
next
  case (Cons x xs)
  show ?case
  proof (cases "k = x")
    case True
    have "g x XOR (g x XOR foldr (\<lambda>k h. g k XOR h) xs 0) = foldr (\<lambda>k h. g k XOR h) xs 0"
      by (simp add: xor.assoc[symmetric])
    with True show ?thesis by simp
  next
    case False
    with Cons show ?thesis by (simp add: ac_simps)
  qed
qed

lemma xor_foldr_cong:
  "(\<And>k. k \<in> set xs \<Longrightarrow> g k = g' k) \<Longrightarrow>
   foldr (\<lambda>k h. (g k :: SHA256) XOR h) xs 0 = foldr (\<lambda>k h. g' k XOR h) xs 0"
  by (induction xs) simp_all

lemma pool_checksum_alt:
  "pool_checksum c m =
   foldr (\<lambda>k h. SnapshotHash c (the (fmlookup m k)) XOR h) (sorted_list_of_fset (fmdom m)) 0"
  by (simp add: pool_checksum_def snapshot_xor_def sorted_list_of_fmap_def foldr_map comp_def)

lemma pool_checksum_empty: "pool_checksum c fmempty = 0"
  by (simp add: pool_checksum_alt sorted_list_of_fset.rep_eq)

lemma pool_checksum_fmupd:
  assumes "fmlookup m k = None"
  shows "pool_checksum c (fmupd k v m) = SnapshotHash c v XOR pool_checksum c m"
proof -
  define g where "g = (\<lambda>k'. SnapshotHash c (the (fmlookup m k')))"
  define g' where "g' = (\<lambda>k'. SnapshotHash c (the (fmlookup (fmupd k v m) k')))"
  define L where "L = sorted_list_of_fset (fmdom m)"
  have nk: "k \<notin> fset (fmdom m)" using assms by (simp add: fmdom_notI)
  have l: "sorted_list_of_fset (fmdom (fmupd k v m)) = insort k L"
    using nk by (simp add: L_def sorted_list_of_fset.rep_eq sorted_list_of_set_insert)
  have "pool_checksum c (fmupd k v m) = foldr (\<lambda>k h. g' k XOR h) (insort k L) 0"
    unfolding pool_checksum_alt l g'_def ..
  also have "\<dots> = g' k XOR foldr (\<lambda>k h. g' k XOR h) L 0"
    by (rule xor_foldr_insort)
  also have "foldr (\<lambda>k h. g' k XOR h) L 0 = foldr (\<lambda>k h. g k XOR h) L 0"
    using nk by (intro xor_foldr_cong) (auto simp: g_def g'_def L_def)
  also have "g' k = SnapshotHash c v" by (simp add: g'_def)
  also have "foldr (\<lambda>k h. g k XOR h) L 0 = pool_checksum c m"
    unfolding pool_checksum_alt g_def L_def ..
  finally show ?thesis .
qed

lemma pool_checksum_fmdrop:
  assumes "fmlookup m k = Some v"
  shows "pool_checksum c (fmdrop k m) = SnapshotHash c v XOR pool_checksum c m"
proof -
  define g where "g = (\<lambda>k'. SnapshotHash c (the (fmlookup m k')))"
  define g' where "g' = (\<lambda>k'. SnapshotHash c (the (fmlookup (fmdrop k m) k')))"
  define L where "L = sorted_list_of_fset (fmdom m)"
  have ik: "k \<in> set L" using assms by (simp add: L_def fmdomI)
  have dL: "distinct L" by (simp add: L_def sorted_list_of_fset.rep_eq)
  have l: "sorted_list_of_fset (fmdom (fmdrop k m)) = remove1 k L"
    by (simp add: L_def sorted_list_of_fset.rep_eq sorted_list_of_set_remove)
  have "pool_checksum c (fmdrop k m) = foldr (\<lambda>k h. g' k XOR h) (remove1 k L) 0"
    unfolding pool_checksum_alt l g'_def ..
  also have "\<dots> = foldr (\<lambda>k h. g k XOR h) (remove1 k L) 0"
    using dL by (intro xor_foldr_cong) (auto simp: g_def g'_def)
  also have "\<dots> = g k XOR foldr (\<lambda>k h. g k XOR h) L 0"
    by (rule xor_foldr_remove1[OF ik])
  also have "g k = SnapshotHash c v" using assms by (simp add: g_def)
  also have "foldr (\<lambda>k h. g k XOR h) L 0 = pool_checksum c m"
    unfolding pool_checksum_alt g_def L_def ..
  finally show ?thesis .
qed

text \<open>
  The store keeps mirroring a mapping through \<^verbatim>\<open>deleteWithTx\<close> and \<^verbatim>\<open>addWithTx\<close>, for a
  codec that decodes what it encodes and outputs with fresh, pairwise distinct ids.
\<close>

lemma store_mirrors_lookup:
  "store_mirrors c tx m \<Longrightarrow> rel_option (\<lambda>v ux. DeserializeRaw c v = Some ux) (fmlookup (unspent_pool tx) k) (fmlookup m k)"
  by (auto simp: store_mirrors_def)

lemma deleteWithTx_loop_mirrors:
  "store_mirrors c tx m \<Longrightarrow> deleteWithTx_loop c tx hashes u = (Inr u', tx') \<Longrightarrow>
   store_mirrors c tx' (fmdrop_set (set hashes) m)"
proof (induction hashes arbitrary: tx m u)
  case Nil
  then show ?case by simp
next
  case (Cons h hs)
  note rel = store_mirrors_lookup[OF Cons.prems(1), of h]
  have e: "fmdrop_set (set (h # hs)) m = fmdrop_set (set hs) (fmdrop h m)"
    by (simp only: list.set fmdrop_set_fmdrop)
  show ?case
  proof (cases "fmlookup (unspent_pool tx) h")
    case None
    with rel have "fmlookup m h = None" by (cases "fmlookup m h") auto
    then have "fmdrop h m = m" by (simp add: fmdrop_idle' fmdom'_notI)
    moreover from None Cons.prems(2) have "deleteWithTx_loop c tx hs u = (Inr u', tx')"
      by (simp add: uxOuts_get_def)
    ultimately show ?thesis using Cons.IH[OF Cons.prems(1)] unfolding e by simp
  next
    case (Some v)
    with rel obtain ux where ux: "fmlookup m h = Some ux" "DeserializeRaw c v = Some ux"
      by (cases "fmlookup m h") auto
    from Cons.prems(1) have x: "getXorHash tx = Inr (pool_checksum c m)"
      by (simp add: store_mirrors_def)
    let ?tx2 = "tx\<lparr>unspent_meta := fmupd xorhashKey (pool_checksum c m XOR SnapshotHash c ux) (unspent_meta tx),
                   unspent_pool := fmdrop h (unspent_pool tx)\<rparr>"
    from Cons.prems(2) Some ux x have w: "writable tx"
      and l: "deleteWithTx_loop c ?tx2 hs (pool_checksum c m XOR SnapshotHash c ux) = (Inr u', tx')"
      by (auto simp: uxOuts_get_def setXorHash_def uxOuts_delete_def Let_def split: if_splits)
    have "store_mirrors c ?tx2 (fmdrop h m)"
      using Cons.prems(1) ux
      by (auto simp: store_mirrors_def getXorHash_def pool_checksum_fmdrop ac_simps intro: fmrel_drop)
    from Cons.IH[OF this l] show ?thesis unfolding e .
  qed
qed

lemma addWithTx_mirrors:
  assumes rt: "\<And>ux. DeserializeRaw c (Serialize c ux) = Some ux"
    and sm: "store_mirrors c tx m"
    and fr: "fmlookup m (Hash c ux) = None"
    and a: "addWithTx c up tx ux = Some (Inr h, tx', up')"
  shows "store_mirrors c tx' (fmupd (Hash c ux) ux m) \<and> h = pool_checksum c (fmupd (Hash c ux) ux m)"
proof -
  from addWithTx_Some[OF a] have nl: "\<not> locked up" and cf: "fmlookup (cache_pool up) (Hash c ux) = None"
    by auto
  from sm have x: "fmlookup (unspent_meta tx) xorhashKey = Some (pool_checksum c m) \<or>
      (fmlookup (unspent_meta tx) xorhashKey = None \<and> pool_checksum c m = 0)"
    by (auto simp: store_mirrors_def getXorHash_def split: option.splits)
  from a x sm show ?thesis
    unfolding addWithTx_fresh[OF nl cf]
    by (auto simp: store_mirrors_def getXorHash_def pool_checksum_fmupd[OF fr] rt ac_simps
        intro!: fmrel_upd split: if_splits)
qed

lemma adds_mirrors:
  assumes rt: "\<And>ux. DeserializeRaw c (Serialize c ux) = Some ux"
  shows "store_mirrors c tx m \<Longrightarrow> distinct (map (Hash c) uxs) \<Longrightarrow>
   \<forall>ux\<in>set uxs. fmlookup m (Hash c ux) = None \<Longrightarrow>
   processBlock_adds c up tx uxs u = Some (Inr h, tx', up') \<Longrightarrow>
   store_mirrors c tx' (fold (\<lambda>ux. fmupd (Hash c ux) ux) uxs m) \<and>
   h = (if uxs = [] then u else pool_checksum c (fold (\<lambda>ux. fmupd (Hash c ux) ux) uxs m))"
proof (induction uxs arbitrary: tx m u)
  case Nil
  then show ?case by simp
next
  case (Cons ux uxs)
  from Cons.prems(4) obtain h1 tx1 up1 where
    a: "addWithTx c up tx ux = Some (Inr h1, tx1, up1)"
    and l: "processBlock_adds c up1 tx1 uxs h1 = Some (Inr h, tx', up')"
    by (auto split: option.splits sum.splits prod.splits)
  from addWithTx_Some[OF a] have u1: "up1 = up" by simp
  from Cons.prems(3) have fr: "fmlookup m (Hash c ux) = None" by simp
  note s1 = addWithTx_mirrors[OF rt Cons.prems(1) fr a]
  have fr': "\<forall>x\<in>set uxs. fmlookup (fmupd (Hash c ux) ux m) (Hash c x) = None"
    using Cons.prems(2,3) by auto
  from Cons.prems(2) have d: "distinct (map (Hash c) uxs)" by simp
  from Cons.IH[OF conjunct1[OF s1] d fr' l[unfolded u1]] s1
  show ?case by (cases uxs) auto
qed

lemma fmdrop_set_fmupd_notin:
  "k \<notin> S \<Longrightarrow> fmdrop_set S (fmupd k v m) = fmupd k v (fmdrop_set S m)"
  by (rule fmap_ext) auto

lemma fmdrop_set_fold_upd:
  "H ` set xs \<inter> S = {} \<Longrightarrow>
   fmdrop_set S (fold (\<lambda>ux. fmupd (H ux) ux) xs m) = fold (\<lambda>ux. fmupd (H ux) ux) xs (fmdrop_set S m)"
  by (induction xs arbitrary: m) (auto simp: fmdrop_set_fmupd_notin)

lemma txns_mirrors:
  assumes rt: "\<And>ux. DeserializeRaw c (Serialize c ux) = Some ux"
  shows "store_mirrors c tx (fold (\<lambda>ux. fmupd (Hash c ux) ux) Aacc (fmdrop_set (set Iacc) (cache_pool up))) \<Longrightarrow>
     \<forall>ux\<in>set Aacc. fmlookup (cache_pool up) (Hash c ux) = None \<Longrightarrow>
     distinct (map (Hash c) (Aacc @ concat (map (CreateUnspents c bh) txns))) \<Longrightarrow>
     processBlock_txns c bh up tx txns delUxs addUxs u = Some (Inr (D, A, h), tx', up') \<Longrightarrow>
     store_mirrors c tx'
       (fold (\<lambda>ux. fmupd (Hash c ux) ux) (Aacc @ concat (map (CreateUnspents c bh) txns))
          (fmdrop_set (set Iacc \<union> set (concat (map In txns))) (cache_pool up))) \<and>
     (txns \<noteq> [] \<and> CreateUnspents c bh (last txns) \<noteq> [] \<longrightarrow>
        h = pool_checksum c
          (fold (\<lambda>ux. fmupd (Hash c ux) ux) (Aacc @ concat (map (CreateUnspents c bh) txns))
             (fmdrop_set (set Iacc \<union> set (concat (map In txns))) (cache_pool up))))"
proof (induction txns arbitrary: tx Aacc Iacc delUxs addUxs u)
  case Nil
  then show ?case by simp
next
  case (Cons txn txns)
  let ?m0 = "cache_pool up"
  let ?upd = "\<lambda>ux. fmupd (Hash c ux) ux"
  let ?CU = "CreateUnspents c bh txn"
  from Cons.prems(4) obtain uxs hd tx1 h1 tx2 up2 where
    ga: "getArray up (In txn) = Inr uxs"
    and dl: "deleteWithTx c tx (In txn) = (Inr hd, tx1)"
    and ad: "processBlock_adds c up tx1 ?CU u = Some (Inr h1, tx2, up2)"
    and rs: "processBlock_txns c bh up2 tx2 txns (delUxs @ uxs) (addUxs @ ?CU) h1 = Some (Inr (D, A, h), tx', up')"
    by (auto simp: Let_def split: sum.splits prod.splits option.splits)
  from getArray_Inr[OF ga] have ex: "\<forall>h\<in>set (In txn). fmlookup ?m0 h \<noteq> None" by simp
  from adds_Some[OF ad] have u2: "up2 = up"
    and frc: "\<forall>ux\<in>set ?CU. fmlookup ?m0 (Hash c ux) = None" by auto
  have dis: "Hash c ` set Aacc \<inter> set (In txn) = {}" using Cons.prems(2) ex by auto
  from deleteWithTx_loop_mirrors[OF Cons.prems(1) dl[unfolded deleteWithTx_def]]
  have m1: "store_mirrors c tx1 (fold ?upd Aacc (fmdrop_set (set (In txn) \<union> set Iacc) ?m0))"
    by (simp add: fmdrop_set_fold_upd[OF dis])
  have d1: "distinct (map (Hash c) ?CU)" using Cons.prems(3) by simp
  have fr1: "\<forall>ux\<in>set ?CU. fmlookup (fold ?upd Aacc (fmdrop_set (set (In txn) \<union> set Iacc) ?m0)) (Hash c ux) = None"
  proof
    fix ux assume ux: "ux \<in> set ?CU"
    with Cons.prems(3) have "Hash c ux \<notin> Hash c ` set Aacc" by auto
    then have "fmlookup (fold ?upd Aacc (fmdrop_set (set (In txn) \<union> set Iacc) ?m0)) (Hash c ux) =
        fmlookup (fmdrop_set (set (In txn) \<union> set Iacc) ?m0) (Hash c ux)"
      by (rule lookup_fold_upd_notin)
    also have "\<dots> = None" using frc ux by simp
    finally show "fmlookup (fold ?upd Aacc (fmdrop_set (set (In txn) \<union> set Iacc) ?m0)) (Hash c ux) = None" .
  qed
  note a = adds_mirrors[OF rt m1 d1 fr1 ad]
  have m2: "store_mirrors c tx2 (fold ?upd (Aacc @ ?CU) (fmdrop_set (set (Iacc @ In txn)) ?m0))"
    using a by (simp add: Un_commute)
  have fr2: "\<forall>ux\<in>set (Aacc @ ?CU). fmlookup ?m0 (Hash c ux) = None"
    using Cons.prems(2) frc by auto
  have d2: "distinct (map (Hash c) ((Aacc @ ?CU) @ concat (map (CreateUnspents c bh) txns)))"
    using Cons.prems(3) by simp
  note ih = Cons.IH[OF m2 fr2 d2 rs[unfolded u2]]
  have s: "set (Iacc @ In txn) \<union> set (concat (map In txns)) = set Iacc \<union> set (concat (map In (txn # txns)))"
    by auto
  show ?case
  proof (cases txns)
    case Nil
    with rs have "h = h1" by simp
    with a ih Nil show ?thesis by (simp add: Un_commute)
  next
    case (Cons t ts)
    with ih show ?thesis unfolding s by simp
  qed
qed

lemma GetUxHash_eq: "GetUxHash up = (if locked up then None else Some (cache_uxhash up, up))"
  by (simp add: GetUxHash_def Lock_def Unlock_def relock_id)

text \<open>
  For a pool that the store mirrors, a block whose created outputs have pairwise distinct
  ids and whose last transaction creates an output leaves the cached checksum equal to the
  exclusive or over the records of the cache, and the store still mirrors the cache.
\<close>

lemma processBlock_keeps_checksum:
  assumes rt: "\<And>ux. DeserializeRaw c (Serialize c ux) = Some ux"
    and wf: "keyed_by_id c up"
    and sm: "store_mirrors c tx (cache_pool up)"
    and ok: "processBlock c up b tx = Some (rb, None, tx', up')"
    and di: "distinct (map (Hash c) (block_outputs c b))"
    and la: "Transactions (Body b) \<noteq> []" "CreateUnspents c (Head b) (last (Transactions (Body b))) \<noteq> []"
  shows "cache_uxhash up' = pool_checksum c (cache_pool up') \<and> store_mirrors c tx' (cache_pool up') \<and>
         (\<exists>h arr. GetUxHash up' = Some (h, up') \<and> GetAll up' = Some ((arr, None), up') \<and> h = snapshot_xor c arr)"
proof -
  let ?ins = "concat (map In (Transactions (Body b)))"
  let ?A = "concat (map (CreateUnspents c (Head b)) (Transactions (Body b)))"
  let ?D = "map (\<lambda>h. the (fmlookup (cache_pool up) h)) ?ins"
  let ?M = "fold (\<lambda>ux. fmupd (Hash c ux) ux) ?A (fmdrop_set (set ?ins) (cache_pool up))"
  note s = processBlock_success[OF ok]
  from ok obtain D A h tx1 up1 where
    t: "processBlock_txns c (Head b) up tx (Transactions (Body b)) [] [] 0 = Some (Inr (D, A, h), tx1, up1)"
    by (auto simp: processBlock_def Let_def split: option.splits sum.splits prod.splits)
  from txns_Some[OF t] have u1: "up1 = up" and DA: "D = ?D" "A = ?A" by auto
  from ok t u1 DA s(1) have tx1: "tx1 = tx'"
    and up': "up' = up\<lparr>cache_pool := fold (\<lambda>ux. fmupd (Hash c ux) ux) ?A (fmdrop_set (Hash c ` set ?D) (cache_pool up)),
                       cache_uxhash := h\<rparr>"
    by (cases up; auto simp: processBlock_def Lock_def Unlock_def deleteUxFromCache_eq addUxToCache_eq
          updateUxHashInCache_def)+
  have HD: "Hash c ` set ?D = set ?ins" by (rule image_Hash_dels[OF wf s(2)])
  have cp: "cache_pool up' = ?M" and ch: "cache_uxhash up' = h" and nl': "\<not> locked up'"
    using s(1) unfolding up' HD by simp_all
  from txns_mirrors[OF rt, of tx "[]" "[]" up "Head b" "Transactions (Body b)" "[]" "[]" 0 D A h tx1 up1]
    sm di t la
  have "store_mirrors c tx1 ?M \<and> h = pool_checksum c ?M"
    by (simp add: block_outputs_def)
  with cp ch tx1 have r: "cache_uxhash up' = pool_checksum c (cache_pool up')" "store_mirrors c tx' (cache_pool up')"
    by simp_all
  from r(1) nl' have "GetUxHash up' = Some (cache_uxhash up', up') \<and>
      GetAll up' = Some ((map snd (sorted_list_of_fmap (cache_pool up')), None), up') \<and>
      cache_uxhash up' = snapshot_xor c (map snd (sorted_list_of_fmap (cache_pool up')))"
    by (simp add: GetUxHash_eq GetAll_def Lock_def Unlock_def relock_id pool_checksum_def)
  with r show ?thesis by blast
qed

subsection \<open>The queries and the mutex\<close>

lemma Collides_loop_eq:
  "locked up \<Longrightarrow>
   Collides_loop up hashes =
     (if \<exists>h\<in>set hashes. fmlookup (cache_pool up) h \<noteq> None
      then Some (True, up)
      else Some (False, up\<lparr>locked := False\<rparr>))"
  by (induction hashes) (auto simp: Unlock_def split: option.splits)

lemma Collides_eq:
  "Collides up hashes =
     (if locked up then None
      else if \<exists>h\<in>set hashes. fmlookup (cache_pool up) h \<noteq> None
      then Some (True, up\<lparr>locked := True\<rparr>)
      else Some (False, up))"
  by (simp add: Collides_def Lock_def Collides_loop_eq relock_id)

lemma queries_release_mutex:
  assumes "\<not> locked up"
  shows "\<exists>r. Get up h = Some (r, up)"
    and "\<exists>r. GetArray up hashes = Some (r, up)"
    and "\<exists>r. GetAll up = Some (r, up)"
    and "\<exists>r. Len up = Some (r, up)"
    and "\<exists>r. Contains up h = Some (r, up)"
    and "\<exists>r. GetUnspentsOfAddr up addr = Some (r, up)"
    and "\<exists>r. GetUnspentsOfAddrs up addrs = Some (r, up)"
    and "\<exists>r. GetUxHash up = Some (r, up)"
  using assms
  by (simp_all add: Get_def GetArray_def GetAll_def Len_def Contains_def GetUnspentsOfAddr_def
      GetUnspentsOfAddrs_def GetUxHash_def Lock_def Unlock_def relock_id)

section \<open>The properties\<close>

text \<open>
  C1. When no block application is in flight, the checksum \<^verbatim>\<open>GetUxHash\<close> returns is the
  exclusive or of the snapshot hashes of the records \<^verbatim>\<open>GetAll\<close> returns, also after
  applying a block whose transactions create no outputs. The code does not keep this:
  \<^verbatim>\<open>processBlock\<close> sets the cached checksum to the value of the last \<^verbatim>\<open>addWithTx\<close> and
  discards the one \<^verbatim>\<open>deleteWithTx\<close> returns. Here the pool holds A and B with checksum
  \<open>3 = 5 XOR 6\<close>, as the property asks; the block spends A and creates nothing. It is applied
  without error, the store's checksum becomes \<open>6\<close>, the cache holds B alone, whose
  snapshot hash is \<open>6\<close>, and the cached checksum is \<open>0\<close>.
\<close>

theorem spend_without_outputs_zeroes_checksum:
  "GetUxHash pool_AB = Some (3, pool_AB) \<and>
   GetAll pool_AB = Some (([uxA, uxB], None), pool_AB) \<and>
   snapshot_xor example_coin [uxA, uxB] = 3 \<and>
   map_option snd (processBlock example_coin pool_AB block_spend_A store_AB) =
     Some (None,
           store_AB\<lparr>unspent_pool := fmupd 2 [2, 6] fmempty, unspent_meta := fmupd xorhashKey 6 fmempty\<rparr>,
           pool_AB\<lparr>cache_pool := fmupd 2 uxB fmempty, cache_uxhash := 0\<rparr>) \<and>
   GetUxHash (pool_AB\<lparr>cache_pool := fmupd 2 uxB fmempty, cache_uxhash := 0\<rparr>) =
     Some (0, pool_AB\<lparr>cache_pool := fmupd 2 uxB fmempty, cache_uxhash := 0\<rparr>) \<and>
   GetAll (pool_AB\<lparr>cache_pool := fmupd 2 uxB fmempty, cache_uxhash := 0\<rparr>) =
     Some (([uxB], None), pool_AB\<lparr>cache_pool := fmupd 2 uxB fmempty, cache_uxhash := 0\<rparr>) \<and>
   snapshot_xor example_coin [uxB] = 6"
  by (intro conjI; code_simp)

text \<open>
  C2. Applying a block and then invoking the rollback \<^verbatim>\<open>processBlock\<close> returned restores
  the cache exactly: the pool is the one before the call, so \<^verbatim>\<open>GetAll\<close>, \<^verbatim>\<open>Len\<close>,
  \<^verbatim>\<open>Contains\<close> for every id and \<^verbatim>\<open>GetUxHash\<close> return what they returned before. This
  holds for a pool whose cache is keyed by the ids of its records (as construction and
  block application leave it) and whose mutex is free (no operation in flight);
  \<^verbatim>\<open>processBlock\<close> then returns, with or without an error.
\<close>

theorem processBlock_undo_exact:
  assumes wf: "keyed_by_id c up"
    and nl: "\<not> locked up"
  shows "\<exists>rb err tx' up'. processBlock c up b tx = Some (rb, err, tx', up') \<and>
           (\<exists>up''. rb up' = Some up'' \<and> up'' = up \<and>
              GetAll up'' = GetAll up \<and> Len up'' = Len up \<and>
              (\<forall>h. Contains up'' h = Contains up h) \<and> GetUxHash up'' = GetUxHash up)"
proof -
  from processBlock_total[OF nl] obtain rb err tx' up' where
    p: "processBlock c up b tx = Some (rb, err, tx', up')" by blast
  have "rb up' = Some up"
  proof (cases err)
    case (Some e)
    with processBlock_error[of c up b tx rb e tx' up'] p show ?thesis by simp
  next
    case None
    note s = processBlock_success[OF p[unfolded None]]
    from s(4) obtain h where up': "up' = up\<lparr>cache_pool :=
        fold (\<lambda>ux. fmupd (Hash c ux) ux) (concat (map (CreateUnspents c (Head b)) (Transactions (Body b))))
          (fmdrop_set (Hash c ` set (map (\<lambda>h. the (fmlookup (cache_pool up) h))
             (concat (map In (Transactions (Body b)))))) (cache_pool up)),
        cache_uxhash := h\<rparr>" by blast
    have wf': "\<forall>k ux. fmlookup (cache_pool up) k = Some ux \<longrightarrow> Hash c ux = k"
      using wf by (auto dest: keyed_by_idD)
    show ?thesis
      unfolding s(5) up'
      using nl undo_map[OF wf' s(2) s(3)]
      by (cases up) (simp add: Lock_def Unlock_def deleteUxFromCache_eq addUxToCache_eq updateUxHashInCache_def)
  qed
  with p show ?thesis by blast
qed

theorem processBlock_undo_exact_witness:
  "\<exists>rb tx' up'. processBlock example_coin pool_AB block_A_to_C store_AB = Some (rb, None, tx', up') \<and>
     rb up' = Some pool_AB"
proof -
  have k: "keyed_by_id example_coin pool_AB" by code_simp
  have l: "\<not> locked pool_AB" by code_simp
  have e: "map_option (\<lambda>r. fst (snd r)) (processBlock example_coin pool_AB block_A_to_C store_AB) = Some None"
    by code_simp
  from processBlock_undo_exact[OF k l, of block_A_to_C store_AB] obtain rb err tx' up' where
    p: "processBlock example_coin pool_AB block_A_to_C store_AB = Some (rb, err, tx', up')"
    and r: "rb up' = Some pool_AB" by blast
  from p e have "err = None" by simp
  with p r show ?thesis by blast
qed

text \<open>
  C3. Inserting an output whose id is already in the pool fails with the duplicate-insert
  error, also when the id duplicates an output added earlier in the same block
  application. The code checks the id against the cache only (\<^verbatim>\<open>up.Contains\<close>), and the
  cache takes the block's outputs after the loop: a block that creates C twice into the
  empty pool is applied without error. The first \<^verbatim>\<open>addWithTx\<close> stores C under id \<open>4\<close> and
  sets the checksum to \<open>9\<close>; the second is accepted too, writes the record again and
  cancels the checksum to \<open>0\<close>, while the pool holds C.
\<close>

theorem duplicate_within_block_accepted:
  "block_outputs example_coin block_C_twice = [uxC, uxC] \<and>
   addWithTx example_coin pool_empty store_empty uxC =
     Some (Inr 9, store_empty\<lparr>unspent_pool := fmupd 4 [4, 9] fmempty, unspent_meta := fmupd xorhashKey 9 fmempty\<rparr>,
           pool_empty) \<and>
   addWithTx example_coin pool_empty
       (store_empty\<lparr>unspent_pool := fmupd 4 [4, 9] fmempty, unspent_meta := fmupd xorhashKey 9 fmempty\<rparr>) uxC =
     Some (Inr 0, store_empty\<lparr>unspent_pool := fmupd 4 [4, 9] fmempty, unspent_meta := fmupd xorhashKey 0 fmempty\<rparr>,
           pool_empty) \<and>
   map_option snd (processBlock example_coin pool_empty block_C_twice store_empty) =
     Some (None,
           store_empty\<lparr>unspent_pool := fmupd 4 [4, 9] fmempty, unspent_meta := fmupd xorhashKey 0 fmempty\<rparr>,
           pool_empty\<lparr>cache_pool := fmupd 4 uxC fmempty, cache_uxhash := 0\<rparr>)"
  by (intro conjI; code_simp)

text \<open>
  C4. Block application is all-or-nothing for the cache: whenever \<^verbatim>\<open>processBlock\<close>
  returns an error, whatever its kind, the pool (the cache mapping, the cached checksum
  and the mutex) is what it was before the call, and the rollback it returns changes
  nothing.
\<close>

theorem processBlock_error_keeps_cache:
  assumes "processBlock c up b tx = Some (rb, Some e, tx', up')"
  shows "cache_pool up' = cache_pool up \<and> cache_uxhash up' = cache_uxhash up \<and> up' = up \<and>
         rb up' = Some up'"
  using processBlock_error[OF assms] by simp

theorem processBlock_error_keeps_cache_witness:
  "\<exists>rb tx' up'.
     processBlock example_coin pool_AB block_spend_missing store_AB =
       Some (rb, Some (ErrNotExist 7), tx', up') \<and>
     cache_pool up' = cache_pool pool_AB \<and> cache_uxhash up' = cache_uxhash pool_AB \<and>
     up' = pool_AB \<and> rb up' = Some up'"
proof -
  have e: "processBlock example_coin pool_AB block_spend_missing store_AB =
     Some (\<lambda>u. Some u, Some (ErrNotExist 7), store_AB, pool_AB)"
    by (simp add: processBlock_def pool_AB_def block_spend_missing_def block_of_def getArray_def)
  from processBlock_error_keeps_cache[OF e] e show ?thesis by blast
qed

text \<open>
  C5, as stated: after a successful application every input id is absent, every created
  output is present, and \<^verbatim>\<open>Len\<close> changes by the number of created outputs minus the number
  of spent inputs. The count fails for a transaction that names A twice among its inputs:
  the block is applied, \<^verbatim>\<open>Len\<close> goes from \<open>2\<close> to \<open>1\<close>, with no output created and two
  inputs spent.
\<close>

theorem input_named_twice_counterexample:
  "map_option snd (processBlock example_coin pool_AB block_spend_A_twice store_AB) =
     Some (None,
           store_AB\<lparr>unspent_pool := fmupd 2 [2, 6] fmempty, unspent_meta := fmupd xorhashKey 6 fmempty\<rparr>,
           pool_AB\<lparr>cache_pool := fmupd 2 uxB fmempty, cache_uxhash := 0\<rparr>) \<and>
   block_inputs block_spend_A_twice = [1, 1] \<and>
   block_outputs example_coin block_spend_A_twice = [] \<and>
   Len pool_AB = Some (2, pool_AB) \<and>
   Len (pool_AB\<lparr>cache_pool := fmupd 2 uxB fmempty, cache_uxhash := 0\<rparr>) =
     Some (1, pool_AB\<lparr>cache_pool := fmupd 2 uxB fmempty, cache_uxhash := 0\<rparr>) \<and>
   (1 :: 64 word) \<noteq> 2 + of_nat (length (block_outputs example_coin block_spend_A_twice))
                        - of_nat (length (block_inputs block_spend_A_twice))"
  by (intro conjI; code_simp)

text \<open>
  C5, amended: for a pool whose cache is keyed by the ids of its records, after a
  successful application every input id of the block is absent (\<^verbatim>\<open>Contains\<close> returns
  false) and every created output is present (\<^verbatim>\<open>Contains\<close> returns true); when the input
  ids of the block are pairwise distinct and the ids of its created outputs are pairwise
  distinct, the number of records, and \<^verbatim>\<open>Len\<close> with it, changes by the number of created
  outputs minus the number of spent inputs.
\<close>

theorem processBlock_contents:
  assumes wf: "keyed_by_id c up"
    and ok: "processBlock c up b tx = Some (rb, None, tx', up')"
  shows "(\<forall>h\<in>set (block_inputs b). Contains up' h = Some (False, up')) \<and>
         (\<forall>ux\<in>set (block_outputs c b). Contains up' (Hash c ux) = Some (True, up')) \<and>
         (distinct (block_inputs b) \<and> distinct (map (Hash c) (block_outputs c b)) \<longrightarrow>
            fcard (fmdom (cache_pool up')) + length (block_inputs b) =
              fcard (fmdom (cache_pool up)) + length (block_outputs c b) \<and>
            (\<exists>n n'. Len up = Some (n, up) \<and> Len up' = Some (n', up') \<and>
               n' + of_nat (length (block_inputs b)) = n + of_nat (length (block_outputs c b))))"
proof -
  let ?m = "cache_pool up"
  let ?ins = "block_inputs b"
  let ?A = "block_outputs c b"
  let ?D = "map (\<lambda>h. the (fmlookup ?m h)) ?ins"
  let ?m' = "fold (\<lambda>ux. fmupd (Hash c ux) ux) ?A (fmdrop_set (Hash c ` set ?D) ?m)"
  note s = processBlock_success[OF ok, folded block_inputs_def block_outputs_def]
  from s(4) obtain h where up': "up' = up\<lparr>cache_pool := ?m', cache_uxhash := h\<rparr>" by blast
  have nl: "\<not> locked up" by (rule s(1))
  have nl': "\<not> locked up'" using nl by (simp add: up')
  have m': "cache_pool up' = ?m'" by (simp add: up')
  have HD: "Hash c ` set ?D = set ?ins" by (rule image_Hash_dels[OF wf s(2)])
  have disj: "Hash c ` set ?A \<inter> set ?ins = {}" using s(2,3) by auto
  have disj': "Hash c ` set ?A \<inter> fmdom' ?m = {}" using s(3) by (auto simp: fmlookup_dom'_iff)
  have sub: "set ?ins \<subseteq> fmdom' ?m" using s(2) by (auto simp: fmlookup_dom'_iff)
  have c1: "\<forall>h\<in>set ?ins. Contains up' h = Some (False, up')"
  proof
    fix k assume k: "k \<in> set ?ins"
    with disj have "k \<notin> Hash c ` set ?A" by auto
    then have "fmlookup ?m' k = fmlookup (fmdrop_set (Hash c ` set ?D) ?m) k"
      by (rule lookup_fold_upd_notin)
    also have "\<dots> = None" using k HD by simp
    finally show "Contains up' k = Some (False, up')" using nl' m' by (simp add: Contains_eq)
  qed
  have c2: "\<forall>ux\<in>set ?A. Contains up' (Hash c ux) = Some (True, up')"
  proof
    fix ux assume "ux \<in> set ?A"
    then have "Hash c ux \<in> Hash c ` set ?A" by simp
    from lookup_fold_upd_in[OF this, of "fmdrop_set (Hash c ` set ?D) ?m"]
    have "fmlookup ?m' (Hash c ux) \<noteq> None" by auto
    then show "Contains up' (Hash c ux) = Some (True, up')" using nl' m' by (simp add: Contains_eq)
  qed
  have c3: "fcard (fmdom (cache_pool up')) + length ?ins = fcard (fmdom ?m) + length ?A
       \<and> (\<exists>n n'. Len up = Some (n, up) \<and> Len up' = Some (n', up') \<and>
               n' + of_nat (length ?ins) = n + of_nat (length ?A))"
    if di: "distinct ?ins" and da: "distinct (map (Hash c) ?A)"
  proof -
    have dom: "fmdom' ?m' = (fmdom' ?m - set ?ins) \<union> Hash c ` set ?A"
      using HD by (simp add: fmdom'_fold_upd)
    have "card (fmdom' ?m') + card (set ?ins) = card (fmdom' ?m) + card (Hash c ` set ?A)"
      unfolding dom using sub disj' by (intro card_after) (auto simp: fmdom'_alt_def)
    moreover have "card (set ?ins) = length ?ins" using di by (rule distinct_card)
    moreover have "card (Hash c ` set ?A) = length ?A" using distinct_card[OF da] by simp
    ultimately have n: "fcard (fmdom ?m') + length ?ins = fcard (fmdom ?m) + length ?A"
      by (simp add: fcard.rep_eq fmdom'_alt_def)
    then have "(of_nat (fcard (fmdom ?m') + length ?ins) :: 64 word) = of_nat (fcard (fmdom ?m) + length ?A)"
      by simp
    then have w: "(of_nat (fcard (fmdom ?m')) :: 64 word) + of_nat (length ?ins) =
        of_nat (fcard (fmdom ?m)) + of_nat (length ?A)"
      by (simp only: of_nat_add)
    from n w show ?thesis using nl nl' m' by (simp add: Len_eq)
  qed
  from c1 c2 c3 show ?thesis by blast
qed

theorem processBlock_contents_witness:
  "\<exists>rb tx' up'.
     processBlock example_coin pool_AB block_A_to_C store_AB = Some (rb, None, tx', up') \<and>
     Contains up' 1 = Some (False, up') \<and>
     Contains up' 4 = Some (True, up') \<and>
     Len pool_AB = Some (2, pool_AB) \<and>
     Len up' = Some (2, up')"
proof -
  let ?up' = "pool_AB\<lparr>cache_pool := fmupd 4 uxC (fmupd 2 uxB fmempty), cache_uxhash := 15\<rparr>"
  have k: "keyed_by_id example_coin pool_AB" by code_simp
  have e: "map_option snd (processBlock example_coin pool_AB block_A_to_C store_AB) =
     Some (None,
           store_AB\<lparr>unspent_pool := fmupd 4 [4, 9] (fmupd 2 [2, 6] fmempty),
                    unspent_meta := fmupd xorhashKey 15 fmempty\<rparr>, ?up')"
    by code_simp
  then obtain rb tx' where
    p: "processBlock example_coin pool_AB block_A_to_C store_AB = Some (rb, None, tx', ?up')"
    by (cases "processBlock example_coin pool_AB block_A_to_C store_AB") auto
  have i: "block_inputs block_A_to_C = [1]" by code_simp
  have a: "block_outputs example_coin block_A_to_C = [uxC]" by code_simp
  have h: "Hash example_coin uxC = 4" by code_simp
  have n: "Len pool_AB = Some (2, pool_AB)" by code_simp
  from processBlock_contents[OF k p] have
    c: "Contains ?up' 1 = Some (False, ?up')" "Contains ?up' 4 = Some (True, ?up')"
    and l: "\<exists>n n'. Len pool_AB = Some (n, pool_AB) \<and> Len ?up' = Some (n', ?up') \<and> n' + 1 = n + 1"
    unfolding i a by (simp_all add: h)
  from l n have "Len ?up' = Some (2, ?up')" by auto
  with p c n show ?thesis by blast
qed

text \<open>
  C6. \<^verbatim>\<open>NewUnspentPool\<close> succeeds on a store that accepts writes and whose output
  records all decode, and whenever it succeeds the cache holds, under each key of the
  output bucket, the decoded record, and nothing else, \<^verbatim>\<open>GetAll\<close> returns exactly these
  records, and the cached checksum is the value stored under the checksum key, the
  all-zero value when the key is absent.
\<close>

theorem NewUnspentPool_reconciles:
  "(writable db \<and> all_decode c db \<longrightarrow> (\<exists>up. NewUnspentPool c db = Inr up)) \<and>
   (\<forall>up. NewUnspentPool c db = Inr up \<longrightarrow>
      (\<forall>k. fmlookup (cache_pool up) k = Option.bind (fmlookup (unspent_pool db) k) (DeserializeRaw c)) \<and>
      cache_uxhash up = (case fmlookup (unspent_meta db) xorhashKey of Some v \<Rightarrow> v | None \<Rightarrow> 0) \<and>
      GetAll up = Some ((map (\<lambda>(k, v). the (DeserializeRaw c v)) (sorted_list_of_fmap (unspent_pool db)), None), up))"
proof (intro conjI allI impI)
  assume a: "writable db \<and> all_decode c db"
  have "\<forall>v\<in>snd ` set (sorted_list_of_fmap (unspent_pool db)). DeserializeRaw c v \<noteq> None"
  proof
    fix v assume "v \<in> snd ` set (sorted_list_of_fmap (unspent_pool db))"
    then obtain k where "fmlookup (unspent_pool db) k = Some v"
      unfolding snd_set_sorted_list by blast
    with a show "DeserializeRaw c v \<noteq> None" unfolding all_decode_def by (blast dest: fmpredD)
  qed
  from syncCache_loop_total[OF this] obtain up1 where
    "syncCache_loop c (sorted_list_of_fmap (unspent_pool db)) \<lparr>cache_pool = fmempty, cache_uxhash = 0, locked = False\<rparr> = Inr up1"
    by blast
  with a show "\<exists>up. NewUnspentPool c db = Inr up"
    by (simp add: NewUnspentPool_def bucket_New_def syncCache_def getUxHashFromDB_def split: option.splits)
next
  fix up assume n: "NewUnspentPool c db = Inr up"
  let ?up0 = "\<lparr>cache_pool = fmempty, cache_uxhash = 0, locked = False\<rparr>"
  from n obtain up1 where
    l: "syncCache_loop c (sorted_list_of_fmap (unspent_pool db)) ?up0 = Inr up1"
    and u: "up = up1\<lparr>cache_uxhash := (case fmlookup (unspent_meta db) xorhashKey of Some v \<Rightarrow> v | None \<Rightarrow> 0)\<rparr>"
    by (auto simp: NewUnspentPool_def bucket_New_def syncCache_def getUxHashFromDB_def
        split: option.splits sum.splits if_splits)
  note r = syncCache_loop_Inr[OF distinct_keys_sorted_list l]
  show lk: "\<And>k. fmlookup (cache_pool up) k = Option.bind (fmlookup (unspent_pool db) k) (DeserializeRaw c)"
    using r u by (auto split: option.splits)
  show "cache_uxhash up = (case fmlookup (unspent_meta db) xorhashKey of Some v \<Rightarrow> v | None \<Rightarrow> 0)"
    using u by simp
  have nl: "\<not> locked up" using r u by simp
  have dec: "DeserializeRaw c v \<noteq> None" if "fmlookup (unspent_pool db) k = Some v" for k v
  proof -
    from that have "v \<in> snd ` set (sorted_list_of_fmap (unspent_pool db))"
      unfolding snd_set_sorted_list by blast
    with r show ?thesis by blast
  qed
  have dom: "fmdom (cache_pool up) = fmdom (unspent_pool db)"
  proof (rule fset_eqI)
    fix k
    show "k |\<in>| fmdom (cache_pool up) \<longleftrightarrow> k |\<in>| fmdom (unspent_pool db)"
      using dec[of k] by (cases "fmlookup (unspent_pool db) k") (auto simp: fmlookup_dom_iff lk)
  qed
  have "map snd (sorted_list_of_fmap (cache_pool up)) =
        map (\<lambda>(k, v). the (DeserializeRaw c v)) (sorted_list_of_fmap (unspent_pool db))"
    unfolding sorted_list_of_fmap_def dom
    by (auto simp: lk fmlookup_dom_iff)
  then show "GetAll up = Some ((map (\<lambda>(k, v). the (DeserializeRaw c v)) (sorted_list_of_fmap (unspent_pool db)), None), up)"
    using nl by (simp add: GetAll_def Lock_def Unlock_def relock_id)
qed

theorem NewUnspentPool_reconciles_witness:
  "NewUnspentPool example_coin store_AB = Inr pool_AB \<and>
   fmlookup (cache_pool pool_AB) 1 = Some uxA \<and>
   cache_uxhash pool_AB = 3 \<and>
   GetAll pool_AB = Some (([uxA, uxB], None), pool_AB)"
proof -
  have w: "writable store_AB \<and> all_decode example_coin store_AB" by code_simp
  have n: "NewUnspentPool example_coin store_AB = Inr pool_AB" by code_simp
  have l: "Option.bind (fmlookup (unspent_pool store_AB) 1) (DeserializeRaw example_coin) = Some uxA"
    by code_simp
  have m: "(case fmlookup (unspent_meta store_AB) xorhashKey of Some v \<Rightarrow> v | None \<Rightarrow> 0) = 3"
    by code_simp
  have g: "map (\<lambda>(k, v). the (DeserializeRaw example_coin v)) (sorted_list_of_fmap (unspent_pool store_AB)) =
           [uxA, uxB]"
    by code_simp
  from NewUnspentPool_reconciles[of store_AB example_coin] w n l m g show ?thesis
    by simp
qed

text \<open>
  C7. \<^verbatim>\<open>GetArray\<close> returns the records of all the requested ids when every id is in the
  cache, and otherwise fails with the not-found error that names the first id of the list
  that is absent, returning no record. (It returns whenever the mutex is free, and leaves
  the pool as it was.)
\<close>

theorem GetArray_first_missing:
  "GetArray up hashes =
     (if locked up then None
      else Some (case find (\<lambda>h. fmlookup (cache_pool up) h = None) hashes of
                   Some h \<Rightarrow> Inl (ErrNotExist h)
                 | None \<Rightarrow> Inr (map (\<lambda>h. the (fmlookup (cache_pool up) h)) hashes), up))"
proof (cases "locked up")
  case True
  then show ?thesis by (simp add: GetArray_def Lock_def)
next
  case False
  have "getArray (up\<lparr>locked := True\<rparr>) hashes = getArray up hashes" by (simp add: getArray_def)
  with False show ?thesis
    by (simp add: GetArray_def Lock_def Unlock_def relock_id) (simp add: getArray_def getArray_loop_eq split: option.splits)
qed

text \<open>
  C8. \<^verbatim>\<open>deleteWithTx\<close> skips an id that is absent from the output bucket: the outcome
  (error or not, the returned checksum, the store) is that of the same call without the
  absent ids; at any point of the loop an id that is absent changes neither the store
  nor the checksum and the loop goes on with the rest; and when every id is absent there
  is no error and the store is untouched.
\<close>

theorem deleteWithTx_skips_absent:
  "deleteWithTx c tx hashes =
     deleteWithTx c tx (filter (\<lambda>h. fmlookup (unspent_pool tx) h \<noteq> None) hashes) \<and>
   (fmlookup (unspent_pool tx) hash = None \<longrightarrow>
      deleteWithTx_loop c tx (hash # hashes) uxHash = deleteWithTx_loop c tx hashes uxHash) \<and>
   ((\<forall>h\<in>set hashes. fmlookup (unspent_pool tx) h = None) \<longrightarrow> deleteWithTx c tx hashes = (Inr 0, tx))"
proof (intro conjI impI)
  have "deleteWithTx_loop c tx hashes 0 =
        deleteWithTx_loop c tx (filter (\<lambda>h. h \<in> fmdom' (unspent_pool tx)) hashes) 0"
    by (rule deleteWithTx_loop_filter) simp
  then show f: "deleteWithTx c tx hashes =
     deleteWithTx c tx (filter (\<lambda>h. fmlookup (unspent_pool tx) h \<noteq> None) hashes)"
    by (simp add: deleteWithTx_def fmlookup_dom'_iff)
  show "deleteWithTx_loop c tx (hash # hashes) uxHash = deleteWithTx_loop c tx hashes uxHash"
    if "fmlookup (unspent_pool tx) hash = None"
    by (rule deleteWithTx_loop_absent[OF that])
  show "deleteWithTx c tx hashes = (Inr 0, tx)" if "\<forall>h\<in>set hashes. fmlookup (unspent_pool tx) h = None"
  proof -
    from that have "filter (\<lambda>h. fmlookup (unspent_pool tx) h \<noteq> None) hashes = []" by (simp add: filter_empty_conv)
    with f show ?thesis by (simp add: deleteWithTx_def)
  qed
qed

theorem deleteWithTx_skips_absent_witness:
  "deleteWithTx example_coin store_AB [7, 1] = deleteWithTx example_coin store_AB [1] \<and>
   deleteWithTx example_coin store_AB [1] =
     (Inr 6, store_AB\<lparr>unspent_pool := fmupd 2 [2, 6] fmempty, unspent_meta := fmupd xorhashKey 6 fmempty\<rparr>) \<and>
   deleteWithTx example_coin store_AB [7, 8] = (Inr 0, store_AB)"
proof -
  have a: "fmlookup (unspent_pool store_AB) 7 = None" by code_simp
  have b: "\<forall>h\<in>set [7, 8]. fmlookup (unspent_pool store_AB) h = None"
    by (simp add: store_AB_def)
  have c: "deleteWithTx example_coin store_AB [1] =
     (Inr 6, store_AB\<lparr>unspent_pool := fmupd 2 [2, 6] fmempty, unspent_meta := fmupd xorhashKey 6 fmempty\<rparr>)"
    by code_simp
  from deleteWithTx_skips_absent[of example_coin store_AB "[1]" 7 0] a
  have "deleteWithTx example_coin store_AB [7, 1] = deleteWithTx example_coin store_AB [1]"
    by (simp add: deleteWithTx_def)
  moreover from deleteWithTx_skips_absent[of example_coin store_AB "[7, 8]" 7] b
  have "deleteWithTx example_coin store_AB [7, 8] = (Inr 0, store_AB)" by blast
  ultimately show ?thesis using c by simp
qed

text \<open>
  C9. Every public query takes the mutex at entry and releases it before it returns, on
  every path; in particular \<^verbatim>\<open>Collides\<close> when it finds a colliding id. The code of
  \<^verbatim>\<open>Collides\<close> returns true from inside the loop, before its \<^verbatim>\<open>up.Unlock()\<close>: on the pool
  that holds A and B, \<^verbatim>\<open>Collides\<close> of the id of A returns true with the mutex still held,
  and the next query, here \<^verbatim>\<open>Contains\<close>, never returns. With no colliding id the mutex
  is released.
\<close>

theorem Collides_keeps_mutex_locked:
  "locked pool_AB = False \<and>
   Collides pool_AB [1] = Some (True, pool_AB\<lparr>locked := True\<rparr>) \<and>
   Contains (pool_AB\<lparr>locked := True\<rparr>) 1 = None \<and>
   Collides pool_AB [7] = Some (False, pool_AB)"
  by (intro conjI; code_simp)

text \<open>
  C10. \<^verbatim>\<open>GetAll\<close> never fails: it returns whenever the mutex is free, its error
  component is always nil, the array holds the records of the cache, and the pool is left
  as it was.
\<close>

theorem GetAll_never_fails:
  "GetAll up =
     (if locked up then None
      else Some ((map snd (sorted_list_of_fmap (cache_pool up)), None), up))"
  by (simp add: GetAll_def Lock_def Unlock_def relock_id)

end
